theory Spec2Isabelle
  imports Complex_Main "HOL-Library.Word" "HOL-Library.Multiset"
begin

section \<open>Music domain types (music/types.ts)\<close>

text \<open>
  A \<open>Key\<close> is a number 1..12 and a \<open>Tempo\<close> one of 84, 94, 102; JavaScript numbers that
  hold integers are modelled as \<open>int\<close>. TypeScript's types \<open>Key\<close> and \<open>Tempo\<close> are
  predicates here (\<open>isValidKey\<close>, \<open>isValidTempo\<close>).
\<close>

datatype direction = forward | reverse

datatype track_type = lead | body

record song =
  song_id :: int
  artist :: string
  title :: string
  key :: int
  bpm :: int

definition isValidKey :: "int \<Rightarrow> bool" where
  "isValidKey v = (1 \<le> v \<and> v \<le> 12)"

definition isValidTempo :: "int \<Rightarrow> bool" where
  "isValidTempo v = (v = 84 \<or> v = 94 \<or> v = 102)"

definition ALL_KEYS :: "int list" where
  "ALL_KEYS = [1, 2, 3, 4, 5, 6, 7, 8, 9, 10, 11, 12]"

section \<open>Key manager (music/KeyManager.ts)\<close>

text \<open>
  \<open>HARMONIC_SCORES\<close> is the table of the source, row by row, as an association list of
  association lists (a \<open>Record<Key, Record<Key, number>>\<close>).
\<close>

definition HARMONIC_SCORES :: "(int \<times> (int \<times> int) list) list" where
  "HARMONIC_SCORES =
    [(1, [(1, 10), (2, 7), (3, 5), (4, 3), (5, 2), (6, 1), (7, 2), (8, 9), (9, 6), (10, 4), (11, 3), (12, 8)]),
     (2, [(1, 7), (2, 10), (3, 8), (4, 6), (5, 4), (6, 2), (7, 1), (8, 3), (9, 9), (10, 7), (11, 5), (12, 4)]),
     (3, [(1, 5), (2, 8), (3, 10), (4, 9), (5, 7), (6, 4), (7, 2), (8, 1), (9, 4), (10, 9), (11, 8), (12, 6)]),
     (4, [(1, 3), (2, 6), (3, 9), (4, 10), (5, 9), (6, 7), (7, 4), (8, 2), (9, 1), (10, 5), (11, 9), (12, 8)]),
     (5, [(1, 2), (2, 4), (3, 7), (4, 9), (5, 10), (6, 9), (7, 7), (8, 4), (9, 2), (10, 1), (11, 6), (12, 9)]),
     (6, [(1, 1), (2, 2), (3, 4), (4, 7), (5, 9), (6, 10), (7, 9), (8, 7), (9, 4), (10, 2), (11, 1), (12, 5)]),
     (7, [(1, 2), (2, 1), (3, 2), (4, 4), (5, 7), (6, 9), (7, 10), (8, 9), (9, 7), (10, 4), (11, 2), (12, 1)]),
     (8, [(1, 9), (2, 3), (3, 1), (4, 2), (5, 4), (6, 7), (7, 9), (8, 10), (9, 9), (10, 7), (11, 4), (12, 2)]),
     (9, [(1, 6), (2, 9), (3, 4), (4, 1), (5, 2), (6, 4), (7, 7), (8, 9), (9, 10), (10, 9), (11, 7), (12, 4)]),
     (10, [(1, 4), (2, 7), (3, 9), (4, 5), (5, 1), (6, 2), (7, 4), (8, 7), (9, 9), (10, 10), (11, 9), (12, 7)]),
     (11, [(1, 3), (2, 5), (3, 8), (4, 9), (5, 6), (6, 1), (7, 2), (8, 4), (9, 7), (10, 9), (11, 10), (12, 9)]),
     (12, [(1, 8), (2, 4), (3, 6), (4, 8), (5, 9), (6, 5), (7, 1), (8, 2), (9, 4), (10, 7), (11, 9), (12, 10)])]"

text \<open>
  \<open>scoreCompatibility\<close> is the lookup \<open>HARMONIC_SCORES[fromKey][toKey]\<close>. The table has
  no entry for a number outside 1..12, which the type \<open>Key\<close> excludes; the value 0 stands
  there, and every statement below about scores is about valid keys.
\<close>

definition scoreCompatibility :: "int \<Rightarrow> int \<Rightarrow> int" where
  "scoreCompatibility fromKey toKey =
     (case map_of HARMONIC_SCORES fromKey of
        None \<Rightarrow> 0
      | Some row \<Rightarrow> (case map_of row toKey of None \<Rightarrow> 0 | Some v \<Rightarrow> v))"

text \<open>
  \<open>Array.prototype.sort\<close> with a comparator is a stable sort: of two elements the
  comparator calls equal, the one that stood first stays first. \<open>sort_by cmp\<close> is that
  sort, by insertion from the right; \<open>cmp a b \<le> 0\<close> reads "a does not go after b".
\<close>

fun insert_by :: "('a \<Rightarrow> 'a \<Rightarrow> int) \<Rightarrow> 'a \<Rightarrow> 'a list \<Rightarrow> 'a list" where
  "insert_by cmp x [] = [x]"
| "insert_by cmp x (y # ys) = (if cmp x y \<le> 0 then x # y # ys else y # insert_by cmp x ys)"

definition sort_by :: "('a \<Rightarrow> 'a \<Rightarrow> int) \<Rightarrow> 'a list \<Rightarrow> 'a list" where
  "sort_by cmp xs = foldr (insert_by cmp) xs []"

definition getCompatibleKeys :: "int \<Rightarrow> int list" where
  "getCompatibleKeys fromKey =
     sort_by (\<lambda>a b. scoreCompatibility fromKey b - scoreCompatibility fromKey a) ALL_KEYS"

definition isHighlyCompatible :: "int \<Rightarrow> int \<Rightarrow> bool" where
  "isHighlyCompatible fromKey toKey = (scoreCompatibility fromKey toKey \<ge> 8)"

record keyManager =
  currentKey :: int
  direction :: direction

definition new_KeyManager :: "int \<Rightarrow> direction \<Rightarrow> keyManager" where
  "new_KeyManager startKey dir = \<lparr>currentKey = startKey, direction = dir\<rparr>"

definition peekNext :: "keyManager \<Rightarrow> int" where
  "peekNext km =
     (if direction km = forward
      then (if currentKey km = 12 then 1 else currentKey km + 1)
      else (if currentKey km = 1 then 12 else currentKey km - 1))"

definition next_key :: "keyManager \<Rightarrow> keyManager" where
  "next_key km = km\<lparr>currentKey := peekNext km\<rparr>"

definition scoreFromCurrent :: "keyManager \<Rightarrow> int \<Rightarrow> int" where
  "scoreFromCurrent km toKey = scoreCompatibility (currentKey km) toKey"

definition keyManager_reset :: "keyManager \<Rightarrow> keyManager" where
  "keyManager_reset km = km\<lparr>currentKey := 1, direction := forward\<rparr>"

section \<open>Song library (music/SongLibrary.ts)\<close>

datatype error =
    EmptySongs
  | InvalidId int
  | DuplicateId int
  | InvalidArtist int
  | InvalidTitle int
  | InvalidKey int
  | InvalidBpm int
  | MinAboveMax
  | LengthNotPositive
  | EmptyArray
  | FailedChoice
  | CountAboveLength
  | CountNegative
  | NotHexadecimal

text \<open>
  The library is the immutable song array and the mutable \<open>Set<number>\<close> of played ids.
\<close>

record songLibrary =
  allSongs :: "song list"
  playedIds :: "int set"

fun validateSongs :: "int set \<Rightarrow> song list \<Rightarrow> error option" where
  "validateSongs seenIds [] = None"
| "validateSongs seenIds (s # rest) =
     (if song_id s < 1 then Some (InvalidId (song_id s))
      else if song_id s \<in> seenIds then Some (DuplicateId (song_id s))
      else if length (artist s) = 0 then Some (InvalidArtist (song_id s))
      else if length (title s) = 0 then Some (InvalidTitle (song_id s))
      else if key s < 1 \<or> key s > 12 then Some (InvalidKey (song_id s))
      else if bpm s \<notin> {84, 94, 102} then Some (InvalidBpm (song_id s))
      else validateSongs (insert (song_id s) seenIds) rest)"

definition new_SongLibrary :: "song list \<Rightarrow> error + songLibrary" where
  "new_SongLibrary songs =
     (if length songs = 0 then Inl EmptySongs
      else (case validateSongs {} songs of
              Some e \<Rightarrow> Inl e
            | None \<Rightarrow> Inr \<lparr>allSongs = songs, playedIds = {}\<rparr>))"

definition isPlayed :: "songLibrary \<Rightarrow> int \<Rightarrow> bool" where
  "isPlayed lib songId = (songId \<in> playedIds lib)"

definition markPlayed :: "int \<Rightarrow> songLibrary \<Rightarrow> songLibrary" where
  "markPlayed songId lib = lib\<lparr>playedIds := insert songId (playedIds lib)\<rparr>"

definition markManyPlayed :: "int list \<Rightarrow> songLibrary \<Rightarrow> songLibrary" where
  "markManyPlayed songIds lib = foldl (\<lambda>l i. markPlayed i l) lib songIds"

definition library_reset :: "songLibrary \<Rightarrow> songLibrary" where
  "library_reset lib = lib\<lparr>playedIds := {}\<rparr>"

text \<open>
  A \<open>SongFilter\<close>: every criterion is optional. \<open>excludeIds\<close> is an array in the source,
  used only through \<open>new Set(excludeIds).has\<close>, so it is a set here; the source skips the
  criterion when the array is empty.
\<close>

record songFilter =
  f_tempo :: "int option"
  f_key :: "int option"
  f_artist :: "string option"
  f_excludeIds :: "int set option"

definition no_filter :: songFilter where
  "no_filter = \<lparr>f_tempo = None, f_key = None, f_artist = None, f_excludeIds = None\<rparr>"

definition filter_songs :: "songFilter \<Rightarrow> songLibrary \<Rightarrow> song list" where
  "filter_songs f lib =
     (let results = allSongs lib;
          results = (case f_tempo f of None \<Rightarrow> results
                     | Some t \<Rightarrow> filter (\<lambda>s. bpm s = t) results);
          results = (case f_key f of None \<Rightarrow> results
                     | Some k \<Rightarrow> filter (\<lambda>s. key s = k) results);
          results = (case f_artist f of None \<Rightarrow> results
                     | Some a \<Rightarrow> filter (\<lambda>s. artist s = a) results);
          results = (case f_excludeIds f of None \<Rightarrow> results
                     | Some ex \<Rightarrow> if ex \<noteq> {} then filter (\<lambda>s. song_id s \<notin> ex) results
                                 else results)
      in results)"

definition getUnplayed :: "songFilter \<Rightarrow> songLibrary \<Rightarrow> song list" where
  "getUnplayed f lib = filter_songs (f\<lparr>f_excludeIds := Some (playedIds lib)\<rparr>) lib"

text \<open>The operations a caller can apply to the played set, and a sequence of them.\<close>

datatype library_op = MarkPlayed int | MarkManyPlayed "int list" | Reset

fun apply_library_op :: "library_op \<Rightarrow> songLibrary \<Rightarrow> songLibrary" where
  "apply_library_op (MarkPlayed i) lib = markPlayed i lib"
| "apply_library_op (MarkManyPlayed is) lib = markManyPlayed is lib"
| "apply_library_op Reset lib = library_reset lib"

definition apply_library_ops :: "library_op list \<Rightarrow> songLibrary \<Rightarrow> songLibrary" where
  "apply_library_ops ops lib = foldl (\<lambda>l c. apply_library_op c l) lib ops"

definition library_ids :: "songLibrary \<Rightarrow> int set" where
  "library_ids lib = song_id ` set (allSongs lib)"

fun op_ids :: "library_op \<Rightarrow> int set" where
  "op_ids (MarkPlayed i) = {i}"
| "op_ids (MarkManyPlayed is) = set is"
| "op_ids Reset = {}"

section \<open>Random source (random/QuantumRandom.ts)\<close>

text \<open>
  The state of a \<open>QuantumRandom\<close>: the cache string, the refill flag, the two
  configuration numbers the methods read, the storage slot \<open>qrng-cache\<close> (\<open>None\<close> when
  there is no storage adapter), and the bytes \<open>crypto.getRandomValues\<close> will deliver, in
  the order it delivers them. The cache is a string of JavaScript characters; the bytes
  are an input of the model, since the platform's generator is outside the program.
\<close>

record quantumRandom =
  cache :: string
  isRefilling :: bool
  cacheSize :: int
  refillThreshold :: rat
  storage :: "string option option"
  crypto :: "nat \<Rightarrow> 8 word"

definition hexDigits :: string where
  "hexDigits = ''0123456789abcdef''"

text \<open>\<open>byte.toString(16).padStart(2, '0')\<close>: two lowercase hexadecimal digits.\<close>

definition byteToHex :: "8 word \<Rightarrow> string" where
  "byteToHex b = [hexDigits ! (unat b div 16), hexDigits ! (unat b mod 16)]"

text \<open>
  \<open>getCryptoHex(length)\<close> fills \<open>Math.ceil(length / 2)\<close> bytes, writes each as two digits
  and keeps the first \<open>length\<close> characters. The bytes it used are consumed.
\<close>

definition getCryptoHex :: "nat \<Rightarrow> quantumRandom \<Rightarrow> string \<times> quantumRandom" where
  "getCryptoHex len r =
     (let n = (len + 1) div 2;
          bytes = map (crypto r) [0..<n];
          hex = concat (map byteToHex bytes)
      in (take len hex, r\<lparr>crypto := (\<lambda>i. crypto r (i + n))\<rparr>))"

definition ensureCacheSize :: "nat \<Rightarrow> quantumRandom \<Rightarrow> quantumRandom" where
  "ensureCacheSize needed r =
     (if length (cache r) \<ge> needed then r
      else (let additional = needed - length (cache r);
                (hex, r') = getCryptoHex additional r
            in r'\<lparr>cache := cache r @ hex\<rparr>))"

definition saveCacheToStorage :: "quantumRandom \<Rightarrow> quantumRandom" where
  "saveCacheToStorage r =
     (case storage r of
        None \<Rightarrow> r
      | Some slot \<Rightarrow> if length (cache r) > 0 then r\<lparr>storage := Some (Some (cache r))\<rparr> else r)"

text \<open>
  \<open>refillIfNeeded\<close> starts \<open>refillCache\<close> without awaiting it. What runs before the
  caller continues is \<open>refillCache\<close> up to its first \<open>await\<close>: the flag is set, and it is
  cleared again at once when nothing is needed. \<open>fetch\<close> returns a promise, so the
  fetched digits (or, when the request fails, the fallback's) arrive later, in the
  background; they are appended to the cache by a later event, not by this call.
\<close>

definition refillIfNeeded :: "quantumRandom \<Rightarrow> quantumRandom" where
  "refillIfNeeded r =
     (let threshold = of_int (cacheSize r) * refillThreshold r
      in if of_nat (length (cache r)) < threshold \<and> \<not> isRefilling r
         then r\<lparr>isRefilling := (cacheSize r - int (length (cache r)) > 0)\<rparr>
         else r)"

text \<open>
  \<open>getHexadecimal(length)\<close>. A rejected promise is the \<open>Inl\<close> result. \<open>length\<close> is an
  integer here; \<open>slice(0, length)\<close> and \<open>slice(length)\<close> of a positive \<open>length\<close> are
  \<open>take\<close> and \<open>drop\<close>.
\<close>

definition getHexadecimal :: "int \<Rightarrow> quantumRandom \<Rightarrow> (error + string) \<times> quantumRandom" where
  "getHexadecimal len r =
     (if len \<le> 0 then (Inl LengthNotPositive, r)
      else (let r1 = ensureCacheSize (nat len) r;
                hex = take (nat len) (cache r1);
                r2 = r1\<lparr>cache := drop (nat len) (cache r1)\<rparr>;
                r3 = saveCacheToStorage r2;
                r4 = refillIfNeeded r3
            in (Inr hex, r4)))"

text \<open>
  \<open>parseInt(hex, 16)\<close> on a non-empty string of hexadecimal digits is the number the
  digits write. The model covers caches that hold hexadecimal digits only (what the
  service and the fallback produce); on any other string \<open>parseInt16\<close> is \<open>None\<close> and the
  model stops with \<open>NotHexadecimal\<close>, saying nothing about what the program does there.
\<close>

definition digitValue :: "char \<Rightarrow> int option" where
  "digitValue c =
     (let n = (of_char c :: int)
      in if 48 \<le> n \<and> n \<le> 57 then Some (n - 48)
         else if 97 \<le> n \<and> n \<le> 102 then Some (n - 87)
         else if 65 \<le> n \<and> n \<le> 70 then Some (n - 55)
         else None)"

fun parseDigits :: "int \<Rightarrow> string \<Rightarrow> int option" where
  "parseDigits acc [] = Some acc"
| "parseDigits acc (c # cs) =
     (case digitValue c of None \<Rightarrow> None | Some d \<Rightarrow> parseDigits (16 * acc + d) cs)"

definition parseInt16 :: "string \<Rightarrow> int option" where
  "parseInt16 s = (if s = [] then None else parseDigits 0 s)"

text \<open>
  JavaScript numbers are IEEE 754 doubles: 53 significant bits, results rounded to the
  nearest double, ties to the even significand. \<open>parseInt\<close> returns the double nearest to
  the integer it read; \<open>toDouble n\<close> is that double for an integer \<open>n \<ge> 0\<close> (itself
  below \<open>2^53\<close>; above, \<open>n\<close> rounded to a multiple of \<open>2^e\<close> with \<open>e = bitlen n - 53\<close>,
  where \<open>bitlen n\<close> is the number of binary digits of \<open>n\<close>). No number of this model
  comes near the exponent limits of a double.
\<close>

function bitlen :: "int \<Rightarrow> nat" where
  "bitlen n = (if n \<le> 0 then 0 else Suc (bitlen (n div 2)))"
  by pat_completeness auto
termination
  by (relation "measure nat") auto

declare bitlen.simps [simp del]

definition toDouble :: "int \<Rightarrow> int" where
  "toDouble n =
     (if n < 2 ^ 53 then n
      else (let e = bitlen n - 53;
                q = n div 2 ^ e;
                r = n mod 2 ^ e;
                h = 2 ^ (e - 1)
            in (if r < h \<or> (r = h \<and> even q) then q else q + 1) * 2 ^ e))"

text \<open>
  \<open>getFloat\<close> divides the parsed number by \<open>Math.pow(16, 16) = 2^64\<close>; dividing a double
  by a power of two is exact, so the result is the rational \<open>toDouble value / 2^64\<close>.
\<close>

definition getFloat :: "quantumRandom \<Rightarrow> (error + rat) \<times> quantumRandom" where
  "getFloat r =
     (case getHexadecimal 16 r of
        (Inl e, r') \<Rightarrow> (Inl e, r')
      | (Inr hex, r') \<Rightarrow>
          (case parseInt16 hex of
             None \<Rightarrow> (Inl NotHexadecimal, r')
           | Some v \<Rightarrow> (Inr (of_int (toDouble v) / 2 ^ 64), r')))"

text \<open>
  The product \<open>randomFloat * range\<close> is rounded to a double. \<open>randomFloat\<close> is a multiple
  of \<open>2^-64\<close> and \<open>range\<close> an integer, so the exact product is \<open>k / 2^64\<close> for an integer
  \<open>k \<ge> 0\<close>, and its double is \<open>toDouble k / 2^64\<close>: \<open>fl64\<close>. The integers \<open>min\<close>, \<open>max\<close>,
  \<open>range\<close> and the sum \<open>floor + min\<close> are exact as long as they stay below \<open>2^53\<close> in
  absolute value, which is the range of arguments this model covers.
\<close>

definition fl64 :: "rat \<Rightarrow> rat" where
  "fl64 x = of_int (toDouble \<lfloor>x * 2 ^ 64\<rfloor>) / 2 ^ 64"

definition getInteger :: "int \<Rightarrow> int \<Rightarrow> quantumRandom \<Rightarrow> (error + int) \<times> quantumRandom" where
  "getInteger minV maxV r =
     (if minV > maxV then (Inl MinAboveMax, r)
      else (let range = maxV - minV + 1
            in (case getFloat r of
                  (Inl e, r') \<Rightarrow> (Inl e, r')
                | (Inr randomFloat, r') \<Rightarrow>
                    (Inr (\<lfloor>fl64 (randomFloat * of_int range)\<rfloor> + minV), r'))))"

text \<open>
  \<open>getChoice\<close>: \<open>array[index]\<close> is \<open>undefined\<close> when the index is not one of the array's
  (the arrays passed here hold no \<open>undefined\<close> element), and then the source throws
  "Failed to get choice".
\<close>

definition getChoice :: "'a list \<Rightarrow> quantumRandom \<Rightarrow> (error + 'a) \<times> quantumRandom" where
  "getChoice array r =
     (if length array = 0 then (Inl EmptyArray, r)
      else (case getInteger 0 (int (length array) - 1) r of
              (Inl e, r') \<Rightarrow> (Inl e, r')
            | (Inr index, r') \<Rightarrow>
                if 0 \<le> index \<and> index < int (length array)
                then (Inr (array ! nat index), r')
                else (Inl FailedChoice, r')))"

text \<open>
  The index \<open>getChoice\<close> reads on an array of length \<open>n\<close> when \<open>getFloat\<close> has returned
  \<open>f\<close>: \<open>getInteger(0, n - 1)\<close> is \<open>Math.floor(f * n) + 0\<close>, the product rounded to a
  double. But for that rounding it is the number \<open>j\<close> with \<open>j / n \<le> f < (j + 1) / n\<close>.
\<close>

definition drawIndex :: "rat \<Rightarrow> nat \<Rightarrow> int" where
  "drawIndex f n = \<lfloor>fl64 (f * of_int (int n))\<rfloor>"

text \<open>
  JavaScript arrays in \<open>shuffle\<close>: an element is \<open>Some v\<close> or \<open>undefined\<close> (\<open>None\<close>).
  Reading past the end gives \<open>undefined\<close>; writing past the end extends the array, the
  gap reading as \<open>undefined\<close>. A negative index names a property, not an element.
\<close>

definition js_get :: "'a option list \<Rightarrow> int \<Rightarrow> 'a option" where
  "js_get xs j = (if 0 \<le> j \<and> j < int (length xs) then xs ! nat j else None)"

definition js_set :: "'a option list \<Rightarrow> int \<Rightarrow> 'a option \<Rightarrow> 'a option list" where
  "js_set xs j v =
     (if j < 0 then xs
      else if j < int (length xs) then xs[nat j := v]
      else xs @ replicate (nat j - length xs) None @ [v])"

text \<open>
  The loop of \<open>shuffle\<close>, for \<open>i\<close> from \<open>length - 1\<close> down to 1: draw \<open>j\<close>, swap the
  elements at \<open>i\<close> and \<open>j\<close>. \<open>shuffle_loop n\<close> runs the iterations \<open>i = n, ..., 1\<close>.
\<close>

fun shuffle_loop ::
  "nat \<Rightarrow> 'a option list \<Rightarrow> quantumRandom \<Rightarrow> (error + 'a option list) \<times> quantumRandom" where
  "shuffle_loop 0 result r = (Inr result, r)"
| "shuffle_loop (Suc n) result r =
     (case getInteger 0 (int (Suc n)) r of
        (Inl e, r') \<Rightarrow> (Inl e, r')
      | (Inr j, r') \<Rightarrow>
          (let temp = js_get result (int (Suc n));
               result1 = js_set result (int (Suc n)) (js_get result j);
               result2 = js_set result1 j temp
           in shuffle_loop n result2 r'))"

definition shuffle :: "'a list \<Rightarrow> quantumRandom \<Rightarrow> (error + 'a option list) \<times> quantumRandom" where
  "shuffle array r = shuffle_loop (length array - 1) (map Some array) r"

text \<open>\<open>slice(0, count)\<close> for an integer count \<open>cnt\<close>; a negative one counts from the end.\<close>

definition slice0 :: "'a list \<Rightarrow> int \<Rightarrow> 'a list" where
  "slice0 xs cnt =
     (if cnt \<ge> 0 then take (nat cnt) xs else take (length xs - nat (- cnt)) xs)"

definition getUniqueChoices ::
  "'a list \<Rightarrow> int \<Rightarrow> quantumRandom \<Rightarrow> (error + 'a option list) \<times> quantumRandom" where
  "getUniqueChoices array cnt r =
     (if cnt > int (length array) then (Inl CountAboveLength, r)
      else if cnt < 0 then (Inl CountNegative, r)
      else (case shuffle array r of
              (Inl e, r') \<Rightarrow> (Inl e, r')
            | (Inr shuffled, r') \<Rightarrow> (Inr (slice0 shuffled cnt), r')))"

text \<open>
  \<open>floats_below_one n r\<close>: the next \<open>n\<close> calls of \<open>getFloat\<close> on the random source \<open>r\<close>
  each return a number, and one below 1.
\<close>

fun floats_below_one :: "nat \<Rightarrow> quantumRandom \<Rightarrow> bool" where
  "floats_below_one 0 r = True"
| "floats_below_one (Suc n) r =
     (case getFloat r of
        (Inl e, r') \<Rightarrow> False
      | (Inr f, r') \<Rightarrow> f < 1 \<and> floats_below_one n r')"

text \<open>A fresh random source with a given cache and no storage; its fallback bytes are 0.\<close>

definition rng_with :: "string \<Rightarrow> quantumRandom" where
  "rng_with c = \<lparr>cache = c, isRefilling = False, cacheSize = 2048, refillThreshold = 1 / 4,
                 storage = None, crypto = (\<lambda>i. 0)\<rparr>"

section \<open>Song selector (music/SongSelector.ts)\<close>

record songSelectorOptions =
  candidatePoolSize :: int
  useMagicNumber :: bool
  minCompatibilityScore :: int
  defaultTempo :: int

definition default_options :: songSelectorOptions where
  "default_options =
     \<lparr>candidatePoolSize = 5, useMagicNumber = True, minCompatibilityScore = 5, defaultTempo = 94\<rparr>"

record trackRequest =
  song :: song
  tempo :: int
  trackType :: track_type

record selectionResult =
  track :: trackRequest
  wasMagicNumber :: bool
  candidatesConsidered :: nat
  compatibilityScore :: int

text \<open>
  The selector holds its three collaborators and its own three fields. \<open>mathRandom\<close> is
  the sequence of numbers \<open>Math.random()\<close> will return, an input of the model.
\<close>

record songSelector =
  library :: songLibrary
  keyManager :: keyManager
  qrng :: quantumRandom
  options :: songSelectorOptions
  currentTempo :: int
  trackCount :: nat
  lastTrackType :: track_type
  mathRandom :: "nat \<Rightarrow> rat"

definition new_SongSelector ::
  "songLibrary \<Rightarrow> keyManager \<Rightarrow> quantumRandom \<Rightarrow> songSelectorOptions \<Rightarrow> (nat \<Rightarrow> rat)
     \<Rightarrow> songSelector" where
  "new_SongSelector lib km rng opts mr =
     \<lparr>library = lib, keyManager = km, qrng = rng, options = opts,
      currentTempo = defaultTempo opts, trackCount = 0, lastTrackType = body, mathRandom = mr\<rparr>"

definition key_filter :: "int \<Rightarrow> songFilter" where
  "key_filter k = no_filter\<lparr>f_key := Some k\<rparr>"

text \<open>
  The loop of \<open>getCompatibleCandidates\<close>: per key, push the unplayed songs of that key,
  and stop once there are \<open>candidatePoolSize * 2\<close> candidates.
\<close>

fun collectCandidates :: "songLibrary \<Rightarrow> int \<Rightarrow> int list \<Rightarrow> song list \<Rightarrow> song list" where
  "collectCandidates lib pool [] candidates = candidates"
| "collectCandidates lib pool (k # keys) candidates =
     (let candidates1 = candidates @ getUnplayed (key_filter k) lib
      in if int (length candidates1) \<ge> pool * 2 then candidates1
         else collectCandidates lib pool keys candidates1)"

definition getCompatibleCandidates :: "songSelector \<Rightarrow> song list" where
  "getCompatibleCandidates s =
     (let cur = currentKey (keyManager s);
          compatibleKeys =
            filter (\<lambda>k. scoreCompatibility cur k \<ge> minCompatibilityScore (options s))
                   (getCompatibleKeys cur)
      in collectCandidates (library s) (candidatePoolSize (options s)) compatibleKeys [])"

definition scoreCandidates :: "songSelector \<Rightarrow> song list \<Rightarrow> (song \<times> int) list" where
  "scoreCandidates s candidates =
     (let cur = currentKey (keyManager s)
      in sort_by (\<lambda>a b. snd b - snd a)
           (filter (\<lambda>item. snd item \<ge> minCompatibilityScore (options s))
              (map (\<lambda>sg. (sg, scoreCompatibility cur (key sg))) candidates)))"

definition selectFromTopCandidates ::
  "songSelector \<Rightarrow> (song \<times> int) list \<Rightarrow> (error + song) \<times> songSelector" where
  "selectFromTopCandidates s scored =
     (if length scored = 0
      then (case getChoice (allSongs (library s)) (qrng s) of
              (res, r') \<Rightarrow> (res, s\<lparr>qrng := r'\<rparr>))
      else (let topCandidates = slice0 scored (candidatePoolSize (options s))
            in (case getChoice topCandidates (qrng s) of
                  (Inl e, r') \<Rightarrow> (Inl e, s\<lparr>qrng := r'\<rparr>)
                | (Inr selected, r') \<Rightarrow> (Inr (fst selected), s\<lparr>qrng := r'\<rparr>))))"

text \<open>
  \<open>selectNormal\<close>, first part: the four steps that refill an empty candidate list, in
  the order of the source, with the selector (its library) as each step leaves it.
\<close>

definition normalCandidates :: "songSelector \<Rightarrow> songSelector \<times> song list" where
  "normalCandidates s =
     (let cur = currentKey (keyManager s);
          candidates = getUnplayed (key_filter cur) (library s);
          candidates = (if length candidates = 0 then getCompatibleCandidates s else candidates);
          (s, candidates) =
            (if length candidates = 0
             then (let s1 = s\<lparr>library := library_reset (library s)\<rparr>
                   in (s1, filter_songs (key_filter cur) (library s1)))
             else (s, candidates));
          candidates = (if length candidates = 0 then getUnplayed no_filter (library s)
                        else candidates);
          (s, candidates) =
            (if length candidates = 0
             then (let s1 = s\<lparr>library := library_reset (library s)\<rparr>
                   in (s1, allSongs (library s1)))
             else (s, candidates))
      in (s, candidates))"

text \<open>\<open>selectNormal\<close>, second part: count, score, select.\<close>

definition selectNormal :: "songSelector \<Rightarrow> (error + song \<times> nat) \<times> songSelector" where
  "selectNormal s0 =
     (let (s, candidates) = normalCandidates s0;
          candidatesConsidered = length candidates;
          scored = scoreCandidates s candidates
      in (case selectFromTopCandidates s scored of
            (Inl e, s') \<Rightarrow> (Inl e, s')
          | (Inr sg, s') \<Rightarrow> (Inr (sg, candidatesConsidered), s')))"

definition selectMagicNumber :: "songSelector \<Rightarrow> (error + song \<times> nat) \<times> songSelector" where
  "selectMagicNumber s =
     (let candidates = getUnplayed no_filter (library s);
          (s, candidates) =
            (if length candidates = 0
             then (let s1 = s\<lparr>library := library_reset (library s)\<rparr>
                   in (s1, allSongs (library s1)))
             else (s, candidates));
          candidatesConsidered = length candidates
      in (case getChoice candidates (qrng s) of
            (Inl e, r') \<Rightarrow> (Inl e, s\<lparr>qrng := r'\<rparr>)
          | (Inr sg, r') \<Rightarrow> (Inr (sg, candidatesConsidered), s\<lparr>qrng := r'\<rparr>)))"

text \<open>
  The literal \<open>0.3\<close> is the double \<open>5404319552844595 / 2^54\<close>. \<open>determineTrackType\<close>
  calls \<open>Math.random()\<close> only in its last case, and consumes one number there.
\<close>

definition double_0_3 :: rat where
  "double_0_3 = 5404319552844595 / 18014398509481984"

definition determineTrackType :: "songSelector \<Rightarrow> track_type \<times> songSelector" where
  "determineTrackType s =
     (if trackCount s = 1 then (lead, s\<lparr>lastTrackType := lead\<rparr>)
      else if lastTrackType s = lead then (body, s\<lparr>lastTrackType := body\<rparr>)
      else (let useBody = (mathRandom s 0 < double_0_3);
                s1 = s\<lparr>mathRandom := (\<lambda>i. mathRandom s (Suc i))\<rparr>;
                t = (if useBody then body else lead)
            in (t, s1\<lparr>lastTrackType := t\<rparr>)))"

text \<open>
  \<open>selectTrack\<close>. The count goes up first; an error of the selection leaves the call
  there, with the count raised and whatever the selection did to the library and the
  random source.
\<close>

definition selectTrack :: "songSelector \<Rightarrow> (error + selectionResult) \<times> songSelector" where
  "selectTrack s0 =
     (let s = s0\<lparr>trackCount := trackCount s0 + 1\<rparr>;
          isMagicNumber = (useMagicNumber (options s) \<and> trackCount s mod 5 = 0)
      in (case (if isMagicNumber then selectMagicNumber s else selectNormal s) of
            (Inl e, s) \<Rightarrow> (Inl e, s)
          | (Inr (sg, considered), s) \<Rightarrow>
              (let (tt, s) = determineTrackType s;
                   s = s\<lparr>library := markPlayed (song_id sg) (library s)\<rparr>;
                   s = (if trackCount s > 1 then s\<lparr>keyManager := next_key (keyManager s)\<rparr>
                        else s);
                   score = scoreFromCurrent (keyManager s) (key sg)
               in (Inr \<lparr>track = \<lparr>song = sg, tempo = currentTempo s, trackType = tt\<rparr>,
                        wasMagicNumber = isMagicNumber,
                        candidatesConsidered = considered,
                        compatibilityScore = score\<rparr>, s))))"

definition selector_reset :: "bool \<Rightarrow> bool \<Rightarrow> songSelector \<Rightarrow> songSelector" where
  "selector_reset resetLibrary resetKeyManager s =
     (let s = (if resetLibrary then s\<lparr>library := library_reset (library s)\<rparr> else s);
          s = (if resetKeyManager then s\<lparr>keyManager := keyManager_reset (keyManager s)\<rparr>
               else s)
      in s\<lparr>trackCount := 0, lastTrackType := body, currentTempo := defaultTempo (options s)\<rparr>)"

text \<open>
  A run of consecutive \<open>selectTrack\<close> calls. Between two calls the background refill may
  have changed the random source; each call comes with what happened to the random source
  since the call before (the identity when nothing arrived). The run collects every
  call's outcome, a raised error included.
\<close>

fun selectTracks ::
  "(quantumRandom \<Rightarrow> quantumRandom) list \<Rightarrow> songSelector
     \<Rightarrow> (error + selectionResult) list \<times> songSelector" where
  "selectTracks [] s = ([], s)"
| "selectTracks (bg # bgs) s =
     (case selectTrack (s\<lparr>qrng := bg (qrng s)\<rparr>) of
        (res, s1) \<Rightarrow> (case selectTracks bgs s1 of (rest, s2) \<Rightarrow> (res # rest, s2)))"

text \<open>
  Two names for parts of \<open>selectTrack\<close>, used to state its properties: whether the call
  made in state \<open>s0\<close> is a magic-number call, and the selection it runs after raising the
  count.
\<close>

definition isMagicCall :: "songSelector \<Rightarrow> bool" where
  "isMagicCall s0 = (useMagicNumber (options s0) \<and> (trackCount s0 + 1) mod 5 = 0)"

definition selection :: "songSelector \<Rightarrow> (error + song \<times> nat) \<times> songSelector" where
  "selection s0 =
     (let s = s0\<lparr>trackCount := trackCount s0 + 1\<rparr>
      in if isMagicCall s0 then selectMagicNumber s else selectNormal s)"

text \<open>
  What a magic-number call draws from: all unplayed songs, whatever their key, or all
  songs when none is unplayed; and the played set the call starts from, emptied by the
  reset in that second case.
\<close>

definition wildcardCandidates :: "songLibrary \<Rightarrow> song list" where
  "wildcardCandidates lib =
     (let unplayed = filter (\<lambda>sg. song_id sg \<notin> playedIds lib) (allSongs lib)
      in if unplayed = [] then allSongs lib else unplayed)"

definition wildcardPlayed :: "songLibrary \<Rightarrow> int set" where
  "wildcardPlayed lib =
     (if filter (\<lambda>sg. song_id sg \<notin> playedIds lib) (allSongs lib) = [] then {}
      else playedIds lib)"

text \<open>
  The catalogue of the exhaustion test: two tracks, both key 1, tempo 94; and a selector
  on it with the default options, an empty cache and fallback bytes 0 (every random
  float is 0), and \<open>Math.random()\<close> returning 0.5.
\<close>

definition song_A :: song where
  "song_A = \<lparr>song_id = 1, artist = ''A'', title = ''Song 1'', key = 1, bpm = 94\<rparr>"

definition song_B :: song where
  "song_B = \<lparr>song_id = 2, artist = ''B'', title = ''Song 2'', key = 1, bpm = 94\<rparr>"

definition lib_two :: songLibrary where
  "lib_two = \<lparr>allSongs = [song_A, song_B], playedIds = {}\<rparr>"

definition sel_two :: songSelector where
  "sel_two = new_SongSelector lib_two (new_KeyManager 1 forward) (rng_with [])
               default_options (\<lambda>i. 1 / 2)"

text \<open>
  The same selector before its fifth call, with the 16 digits \<open>8000000000000000\<close> next
  in the cache (the random float 0.5); and a new selector on the same catalogue with the
  digits \<open>ffffffffffffffff\<close> next in the cache and \<open>Math.random()\<close> returning 0.125.
\<close>

definition sel_fifth :: songSelector where
  "sel_fifth = sel_two\<lparr>trackCount := 4, qrng := rng_with ''8000000000000000''\<rparr>"

definition sel_raise :: songSelector where
  "sel_raise = new_SongSelector lib_two (new_KeyManager 1 forward)
                 (rng_with ''ffffffffffffffff'') default_options (\<lambda>i. 1 / 8)"

text \<open>
  A catalogue whose second track has key 6, the key least compatible with key 1
  (score 1), and a selector on it with wildcard mode disabled.
\<close>

definition song_F :: song where
  "song_F = \<lparr>song_id = 2, artist = ''B'', title = ''Song 2'', key = 6, bpm = 94\<rparr>"

definition lib_far :: songLibrary where
  "lib_far = \<lparr>allSongs = [song_A, song_F], playedIds = {}\<rparr>"

definition sel_far :: songSelector where
  "sel_far = new_SongSelector lib_far (new_KeyManager 1 forward) (rng_with [])
               (default_options\<lparr>useMagicNumber := False\<rparr>) (\<lambda>i. 1 / 2)"

text \<open>
  An unplayed song whose key is compatible with the current key of the selector: its
  score against the current key reaches \<open>minCompatibilityScore\<close>.
\<close>

definition compatibleUnplayed :: "songSelector \<Rightarrow> song \<Rightarrow> bool" where
  "compatibleUnplayed s sg =
     (sg \<in> set (allSongs (library s)) \<and> song_id sg \<notin> playedIds (library s)
      \<and> scoreCompatibility (currentKey (keyManager s)) (key sg)
            \<ge> minCompatibilityScore (options s))"

text \<open>A result in brief: song id, track type, magic flag, candidates, score.\<close>

definition brief :: "selectionResult \<Rightarrow> int \<times> track_type \<times> bool \<times> nat \<times> int" where
  "brief r = (song_id (song (track r)), trackType (track r), wasMagicNumber r,
              candidatesConsidered r, compatibilityScore r)"

text \<open>
  The order \<open>getCompatibleKeys\<close> is meant to produce: a higher score against
  \<open>fromKey\<close> goes first, and of two keys with the same score the smaller number.
\<close>

definition key_order :: "int \<Rightarrow> int \<Rightarrow> int \<Rightarrow> bool" where
  "key_order fromKey a b =
     (scoreCompatibility fromKey a > scoreCompatibility fromKey b
      \<or> (scoreCompatibility fromKey a = scoreCompatibility fromKey b \<and> a < b))"

text \<open>A one-song library, as \<open>new SongLibrary\<close> builds it.\<close>

definition lib1 :: songLibrary where
  "lib1 = \<lparr>allSongs = [\<lparr>song_id = 1, artist = ''A'', title = ''Song 1'', key = 1, bpm = 94\<rparr>],
           playedIds = {}\<rparr>"

section \<open>Properties of the key manager\<close>

lemma valid_key_mem: "isValidKey a \<Longrightarrow> a \<in> set ALL_KEYS"
  unfolding isValidKey_def ALL_KEYS_def by (simp; presburger)

lemma set_ALL_KEYS: "set ALL_KEYS = {k. isValidKey k}"
  unfolding isValidKey_def ALL_KEYS_def by (auto; presburger)

lemma score_table_all:
  "list_all (\<lambda>a. list_all (\<lambda>b.
      scoreCompatibility a b = scoreCompatibility b a
       \<and> 1 \<le> scoreCompatibility a b \<and> scoreCompatibility a b \<le> 10
       \<and> (scoreCompatibility a b = 10 \<longleftrightarrow> a = b)) ALL_KEYS) ALL_KEYS"
  by code_simp

lemma score_facts:
  assumes "isValidKey a" and "isValidKey b"
  shows "scoreCompatibility a b = scoreCompatibility b a"
    and "1 \<le> scoreCompatibility a b"
    and "scoreCompatibility a b \<le> 10"
    and "scoreCompatibility a b = 10 \<longleftrightarrow> a = b"
  using score_table_all valid_key_mem[OF assms(1)] valid_key_mem[OF assms(2)]
  unfolding list_all_iff by blast+

text \<open>
  C8. For all keys a, b in 1..12 the score is symmetric, lies in 1..10, and is 10 exactly
  when a = b; scoreCompatibility(1, 8) = 9 and scoreCompatibility(1, 6) = 1.
\<close>

theorem score_table_symmetric_bounded:
  assumes "isValidKey a" and "isValidKey b"
  shows "scoreCompatibility a b = scoreCompatibility b a
       \<and> 1 \<le> scoreCompatibility a b \<and> scoreCompatibility a b \<le> 10
       \<and> (scoreCompatibility a b = 10 \<longleftrightarrow> a = b)
       \<and> scoreCompatibility 1 8 = 9 \<and> scoreCompatibility 1 6 = 1"
proof -
  have "scoreCompatibility 1 8 = 9" by code_simp
  moreover have "scoreCompatibility 1 6 = 1" by code_simp
  ultimately show ?thesis using score_facts[OF assms] by blast
qed

theorem score_table_witness:
  "isValidKey 1 \<and> isValidKey 8 \<and> scoreCompatibility 1 8 = scoreCompatibility 8 1
       \<and> 1 \<le> scoreCompatibility 1 8 \<and> scoreCompatibility 1 8 \<le> 10
       \<and> (scoreCompatibility 1 8 = 10 \<longleftrightarrow> (1::int) = 8)"
proof -
  have v: "isValidKey 1" "isValidKey 8" by (simp_all add: isValidKey_def)
  show ?thesis using v score_table_symmetric_bounded[OF v] by simp
qed

lemma compatible_keys_all:
  "list_all (\<lambda>fromKey.
       distinct (getCompatibleKeys fromKey)
     \<and> set (getCompatibleKeys fromKey) = set ALL_KEYS
     \<and> length (getCompatibleKeys fromKey) = 12
     \<and> sorted_wrt (key_order fromKey) (getCompatibleKeys fromKey)
     \<and> hd (getCompatibleKeys fromKey) = fromKey) ALL_KEYS"
  by code_simp

lemma set_getCompatibleKeys:
  "isValidKey fromKey \<Longrightarrow> set (getCompatibleKeys fromKey) = {k. isValidKey k}"
  using compatible_keys_all valid_key_mem[of fromKey] set_ALL_KEYS
  unfolding list_all_iff by auto

text \<open>
  C7. For every key \<open>fromKey\<close> in 1..12, \<open>getCompatibleKeys fromKey\<close> holds each of the
  12 keys exactly once, in descending score against \<open>fromKey\<close>, keys of equal score in
  ascending key number, and \<open>fromKey\<close> first, the only key that scores 10 against it.
\<close>

theorem getCompatibleKeys_sorted:
  assumes "isValidKey fromKey"
  shows "distinct (getCompatibleKeys fromKey)
       \<and> set (getCompatibleKeys fromKey) = {k. isValidKey k}
       \<and> length (getCompatibleKeys fromKey) = 12
       \<and> sorted_wrt (key_order fromKey) (getCompatibleKeys fromKey)
       \<and> hd (getCompatibleKeys fromKey) = fromKey
       \<and> (\<forall>k. isValidKey k \<longrightarrow> (scoreCompatibility fromKey k = 10 \<longleftrightarrow> k = fromKey))"
proof -
  have "\<forall>k. isValidKey k \<longrightarrow> (scoreCompatibility fromKey k = 10 \<longleftrightarrow> k = fromKey)"
    using score_facts(4)[OF assms] by (metis (full_types))
  then show ?thesis
    using compatible_keys_all valid_key_mem[OF assms] set_ALL_KEYS
    unfolding list_all_iff by auto
qed

theorem getCompatibleKeys_sorted_witness:
  "isValidKey 1 \<and> getCompatibleKeys 1 = [1, 8, 12, 2, 9, 3, 10, 4, 11, 5, 7, 6]
     \<and> sorted_wrt (key_order 1) (getCompatibleKeys 1) \<and> hd (getCompatibleKeys 1) = 1"
proof -
  have v: "isValidKey 1" by (simp add: isValidKey_def)
  have e: "getCompatibleKeys 1 = [1, 8, 12, 2, 9, 3, 10, 4, 11, 5, 7, 6]" by code_simp
  show ?thesis using v e getCompatibleKeys_sorted[OF v] by simp
qed

section \<open>Properties of the song library\<close>

lemma markPlayed_simps:
  "playedIds (markPlayed i lib) = insert i (playedIds lib)"
  "allSongs (markPlayed i lib) = allSongs lib"
  by (simp_all add: markPlayed_def)

lemma library_reset_simps:
  "playedIds (library_reset lib) = {}"
  "allSongs (library_reset lib) = allSongs lib"
  by (simp_all add: library_reset_def)

lemma markManyPlayed_simps:
  "playedIds (markManyPlayed is lib) = set is \<union> playedIds lib
   \<and> allSongs (markManyPlayed is lib) = allSongs lib"
  unfolding markManyPlayed_def
  by (induction "is" arbitrary: lib) (auto simp: markPlayed_simps)

lemma apply_library_op_ids:
  "allSongs (apply_library_op c lib) = allSongs lib \<and>
   playedIds (apply_library_op c lib) \<subseteq> op_ids c \<union> playedIds lib"
  by (cases c) (auto simp: markPlayed_simps markManyPlayed_simps library_reset_simps)

text \<open>
  C3 as stated fails: \<open>markPlayed\<close> inserts whatever id it is given. On the one-song
  library (id 1), \<open>markPlayed(99)\<close> leaves the played set \<open>{99}\<close>, which is not a subset
  of the ids of the track list.
\<close>

theorem played_subset_ids_counterexample:
  "new_SongLibrary [\<lparr>song_id = 1, artist = ''A'', title = ''Song 1'', key = 1, bpm = 94\<rparr>] = Inr lib1
   \<and> playedIds (apply_library_ops [MarkPlayed 99] lib1) = {99}
   \<and> library_ids (apply_library_ops [MarkPlayed 99] lib1) = {1}
   \<and> \<not> playedIds (apply_library_ops [MarkPlayed 99] lib1)
          \<subseteq> library_ids (apply_library_ops [MarkPlayed 99] lib1)"
  by (simp add: new_SongLibrary_def lib1_def apply_library_ops_def markPlayed_def library_ids_def)

text \<open>
  C3, amended. Every sequence of \<open>markPlayed\<close> / \<open>markManyPlayed\<close> / \<open>reset\<close> calls whose
  id arguments are all ids of tracks in the list keeps the played set inside the ids of
  the track list, and leaves the track list as it was.
\<close>

theorem played_subset_ids_preserved:
  assumes "playedIds lib \<subseteq> library_ids lib"
      and "\<forall>c \<in> set ops. op_ids c \<subseteq> library_ids lib"
  shows "playedIds (apply_library_ops ops lib) \<subseteq> library_ids (apply_library_ops ops lib)
       \<and> allSongs (apply_library_ops ops lib) = allSongs lib"
  using assms unfolding apply_library_ops_def
proof (induction ops arbitrary: lib)
  case Nil
  then show ?case by simp
next
  case (Cons c ops)
  have a: "allSongs (apply_library_op c lib) = allSongs lib"
    and p: "playedIds (apply_library_op c lib) \<subseteq> op_ids c \<union> playedIds lib"
    using apply_library_op_ids by blast+
  have l: "library_ids (apply_library_op c lib) = library_ids lib"
    by (simp add: library_ids_def a)
  have "playedIds (apply_library_op c lib) \<subseteq> library_ids (apply_library_op c lib)"
    using p Cons.prems l by auto
  moreover have "\<forall>c' \<in> set ops. op_ids c' \<subseteq> library_ids (apply_library_op c lib)"
    using Cons.prems l by simp
  ultimately show ?case
    using Cons.IH[of "apply_library_op c lib"] a by simp
qed

theorem played_subset_ids_witness:
  "playedIds lib1 \<subseteq> library_ids lib1
   \<and> playedIds (apply_library_ops [MarkPlayed 1, Reset, MarkManyPlayed [1, 1]] lib1) = {1}
   \<and> playedIds (apply_library_ops [MarkPlayed 1, Reset, MarkManyPlayed [1, 1]] lib1)
        \<subseteq> library_ids (apply_library_ops [MarkPlayed 1, Reset, MarkManyPlayed [1, 1]] lib1)"
proof -
  have h1: "playedIds lib1 \<subseteq> library_ids lib1" by (simp add: lib1_def)
  have h2: "\<forall>c \<in> set [MarkPlayed 1, Reset, MarkManyPlayed [1, 1]]. op_ids c \<subseteq> library_ids lib1"
    by (simp add: lib1_def library_ids_def)
  have e: "playedIds (apply_library_ops [MarkPlayed 1, Reset, MarkManyPlayed [1, 1]] lib1) = {1}"
    by (simp add: lib1_def apply_library_ops_def markPlayed_def markManyPlayed_def library_reset_def)
  show ?thesis using h1 e played_subset_ids_preserved[OF h1 h2] by simp
qed

section \<open>Properties of the random source\<close>

lemma length_byteToHex: "length (byteToHex b) = 2"
  by (simp add: byteToHex_def)

lemma length_concat_byteToHex: "length (concat (map byteToHex bs)) = 2 * length bs"
  by (induction bs) (simp_all add: length_byteToHex)

lemma length_getCryptoHex: "length (fst (getCryptoHex n r)) = n"
proof -
  have "n \<le> 2 * ((n + 1) div 2)" by presburger
  then show ?thesis
    by (simp add: getCryptoHex_def Let_def length_concat_byteToHex del: map_map)
qed

lemma cache_saveCacheToStorage: "cache (saveCacheToStorage r) = cache r"
  by (simp add: saveCacheToStorage_def split: option.splits)

lemma cache_refillIfNeeded: "cache (refillIfNeeded r) = cache r"
  by (simp add: refillIfNeeded_def Let_def)

lemma crypto_saveCacheToStorage: "crypto (saveCacheToStorage r) = crypto r"
  by (simp add: saveCacheToStorage_def split: option.splits)

lemma crypto_refillIfNeeded: "crypto (refillIfNeeded r) = crypto r"
  by (simp add: refillIfNeeded_def Let_def)

lemma cache_ensureCacheSize:
  "cache (ensureCacheSize n r) =
     (if length (cache r) \<ge> n then cache r
      else cache r @ fst (getCryptoHex (n - length (cache r)) r))"
  by (simp add: ensureCacheSize_def Let_def split: prod.splits)

lemma getHexadecimal_result:
  "0 < len \<Longrightarrow>
   fst (getHexadecimal len r) = Inr (take (nat len) (cache (ensureCacheSize (nat len) r)))
   \<and> cache (snd (getHexadecimal len r)) = drop (nat len) (cache (ensureCacheSize (nat len) r))"
  by (simp add: getHexadecimal_def Let_def cache_saveCacheToStorage cache_refillIfNeeded)

text \<open>
  C10. For a positive \<open>len\<close>: when the cache holds at least \<open>len\<close> characters,
  \<open>getHexadecimal len\<close> returns the first \<open>len\<close> characters of the cache, leaves the
  rest of the cache in its order, and takes nothing from the fallback; when the cache is
  shorter, the result is the whole cache followed by the fallback's digits, the fallback
  is asked for the shortfall only, and the cache is left empty.
\<close>

theorem getHexadecimal_fifo:
  assumes "0 < len"
  shows "(len \<le> int (length (cache r)) \<longrightarrow>
            fst (getHexadecimal len r) = Inr (take (nat len) (cache r))
          \<and> cache (snd (getHexadecimal len r)) = drop (nat len) (cache r)
          \<and> crypto (snd (getHexadecimal len r)) = crypto r)
       \<and> (int (length (cache r)) < len \<longrightarrow>
            fst (getHexadecimal len r)
              = Inr (cache r @ fst (getCryptoHex (nat len - length (cache r)) r))
          \<and> length (fst (getCryptoHex (nat len - length (cache r)) r))
              = nat len - length (cache r)
          \<and> cache (snd (getHexadecimal len r)) = [])"
proof (intro conjI impI)
  assume h: "len \<le> int (length (cache r))"
  then have e: "ensureCacheSize (nat len) r = r"
    by (simp add: ensureCacheSize_def nat_le_iff)
  show "fst (getHexadecimal len r) = Inr (take (nat len) (cache r))"
    using getHexadecimal_result[OF assms, of r] e by simp
  show "cache (snd (getHexadecimal len r)) = drop (nat len) (cache r)"
    using getHexadecimal_result[OF assms, of r] e by simp
  show "crypto (snd (getHexadecimal len r)) = crypto r"
    using assms e
    by (simp add: getHexadecimal_def Let_def crypto_saveCacheToStorage crypto_refillIfNeeded)
next
  assume h: "int (length (cache r)) < len"
  let ?k = "nat len - length (cache r)"
  have "\<not> nat len \<le> length (cache r)" using h by linarith
  then have c: "cache (ensureCacheSize (nat len) r) = cache r @ fst (getCryptoHex ?k r)"
    by (simp add: cache_ensureCacheSize)
  have l: "length (cache r @ fst (getCryptoHex ?k r)) = nat len"
    using h by (simp add: length_getCryptoHex)
  show "fst (getHexadecimal len r) = Inr (cache r @ fst (getCryptoHex ?k r))"
    using getHexadecimal_result[OF assms, of r] c l by simp
  show "length (fst (getCryptoHex ?k r)) = ?k"
    by (rule length_getCryptoHex)
  show "cache (snd (getHexadecimal len r)) = []"
    using getHexadecimal_result[OF assms, of r] c l by simp
qed

theorem getHexadecimal_fifo_witness:
  "(0::int) < 4
   \<and> fst (getHexadecimal 4 (rng_with ''0123456789'')) = Inr ''0123''
   \<and> cache (snd (getHexadecimal 4 (rng_with ''0123456789''))) = ''456789''
   \<and> fst (getHexadecimal 4 (rng_with ''ab'')) = Inr ''ab00''
   \<and> cache (snd (getHexadecimal 4 (rng_with ''ab''))) = ''''"
proof -
  have p: "(0::int) < 4" by simp
  have c1: "cache (rng_with ''0123456789'') = ''0123456789''"
    and c2: "cache (rng_with ''ab'') = ''ab''"
    by (simp_all add: rng_with_def)
  have g: "fst (getCryptoHex 2 (rng_with ''ab'')) = ''00''"
    by (simp add: getCryptoHex_def rng_with_def byteToHex_def hexDigits_def)
  show ?thesis
    using p getHexadecimal_fifo[OF p, of "rng_with ''0123456789''"]
      getHexadecimal_fifo[OF p, of "rng_with ''ab''"] g
    by (simp add: c1 c2)
qed

text \<open>
  C4 fails on the code. When the next 16 cached digits are \<open>ffffffffffffffff\<close>,
  \<open>parseInt\<close> returns the double nearest to \<open>2^64 - 1\<close>, which is \<open>2^64\<close>; \<open>getFloat\<close>
  returns \<open>2^64 / 2^64 = 1\<close>, not a number below 1; and \<open>getInteger(5, 5)\<close> returns
  \<open>floor(1 * 1) + 5 = 6\<close>, \<open>getInteger(1, 10)\<close> returns 11. The same happens on an
  empty cache when the fallback's next eight bytes are all 255.
\<close>

theorem getInteger_above_max:
  "fst (getFloat (rng_with ''ffffffffffffffff'')) = Inr 1
   \<and> fst (getInteger 5 5 (rng_with ''ffffffffffffffff'')) = Inr 6
   \<and> fst (getInteger 1 10 (rng_with ''ffffffffffffffff'')) = Inr 11
   \<and> fst (getHexadecimal 16 ((rng_with [])\<lparr>crypto := (\<lambda>i. 255)\<rparr>)) = Inr ''ffffffffffffffff''
   \<and> fst (getInteger 5 5 ((rng_with [])\<lparr>crypto := (\<lambda>i. 255)\<rparr>)) = Inr 6"
  by code_simp

section \<open>Properties of the song selector\<close>

lemma normalCandidates_nested:
  "normalCandidates s =
     (let cur = currentKey (keyManager s);
          c1 = getUnplayed (key_filter cur) (library s);
          c2 = getCompatibleCandidates s;
          s1 = s\<lparr>library := library_reset (library s)\<rparr>;
          c3 = filter_songs (key_filter cur) (library s1);
          c4 = getUnplayed no_filter (library s1)
      in if c1 \<noteq> [] then (s, c1)
         else if c2 \<noteq> [] then (s, c2)
         else if c3 \<noteq> [] then (s1, c3)
         else if c4 \<noteq> [] then (s1, c4)
         else (s1, allSongs (library s)))"
  by (simp add: normalCandidates_def Let_def library_reset_def)

lemma normalCandidates_state:
  "fst (normalCandidates s) = s \<or> fst (normalCandidates s) = s\<lparr>library := library_reset (library s)\<rparr>"
  by (simp add: normalCandidates_nested Let_def)

lemma normalCandidates_frame:
  "trackCount (fst (normalCandidates s)) = trackCount s"
  "lastTrackType (fst (normalCandidates s)) = lastTrackType s"
  "keyManager (fst (normalCandidates s)) = keyManager s"
  "options (fst (normalCandidates s)) = options s"
  "currentTempo (fst (normalCandidates s)) = currentTempo s"
  "mathRandom (fst (normalCandidates s)) = mathRandom s"
  "qrng (fst (normalCandidates s)) = qrng s"
  "allSongs (library (fst (normalCandidates s))) = allSongs (library s)"
  using normalCandidates_state[of s] by (auto simp: library_reset_def)

lemma selectFromTopCandidates_frame:
  "trackCount (snd (selectFromTopCandidates s scored)) = trackCount s"
  "lastTrackType (snd (selectFromTopCandidates s scored)) = lastTrackType s"
  "keyManager (snd (selectFromTopCandidates s scored)) = keyManager s"
  "options (snd (selectFromTopCandidates s scored)) = options s"
  "currentTempo (snd (selectFromTopCandidates s scored)) = currentTempo s"
  "mathRandom (snd (selectFromTopCandidates s scored)) = mathRandom s"
  "library (snd (selectFromTopCandidates s scored)) = library s"
  by (simp_all add: selectFromTopCandidates_def Let_def split: prod.splits sum.splits)

lemma selectNormal_snd:
  "snd (selectNormal s) =
     snd (selectFromTopCandidates (fst (normalCandidates s))
            (scoreCandidates (fst (normalCandidates s)) (snd (normalCandidates s))))"
  by (simp add: selectNormal_def Let_def split: prod.splits sum.splits)

lemma selectNormal_frame:
  "trackCount (snd (selectNormal s)) = trackCount s"
  "lastTrackType (snd (selectNormal s)) = lastTrackType s"
  "keyManager (snd (selectNormal s)) = keyManager s"
  "options (snd (selectNormal s)) = options s"
  "currentTempo (snd (selectNormal s)) = currentTempo s"
  "mathRandom (snd (selectNormal s)) = mathRandom s"
  "allSongs (library (snd (selectNormal s))) = allSongs (library s)"
  by (simp_all add: selectNormal_snd selectFromTopCandidates_frame normalCandidates_frame)

lemma selectMagicNumber_frame:
  "trackCount (snd (selectMagicNumber s)) = trackCount s"
  "lastTrackType (snd (selectMagicNumber s)) = lastTrackType s"
  "keyManager (snd (selectMagicNumber s)) = keyManager s"
  "options (snd (selectMagicNumber s)) = options s"
  "currentTempo (snd (selectMagicNumber s)) = currentTempo s"
  "mathRandom (snd (selectMagicNumber s)) = mathRandom s"
  "allSongs (library (snd (selectMagicNumber s))) = allSongs (library s)"
  by (simp_all add: selectMagicNumber_def Let_def library_reset_def split: prod.splits sum.splits)

lemma selection_frame:
  "trackCount (snd (selection s)) = trackCount s + 1"
  "lastTrackType (snd (selection s)) = lastTrackType s"
  "keyManager (snd (selection s)) = keyManager s"
  "options (snd (selection s)) = options s"
  "currentTempo (snd (selection s)) = currentTempo s"
  "mathRandom (snd (selection s)) = mathRandom s"
  "allSongs (library (snd (selection s))) = allSongs (library s)"
  by (simp_all add: selection_def Let_def selectNormal_frame selectMagicNumber_frame)

lemma selectTrack_Inl:
  "fst (selection s0) = Inl e \<Longrightarrow> selectTrack s0 = (Inl e, snd (selection s0))"
  by (cases "selection s0")
     (simp add: selectTrack_def selection_def isMagicCall_def Let_def split: if_splits)

lemma selectTrack_Inr:
  assumes "fst (selection s0) = Inr (sg, c)"
  shows "selectTrack s0 =
     (let s2 = snd (selection s0);
          tt = fst (determineTrackType s2);
          s3 = snd (determineTrackType s2);
          s4 = s3\<lparr>library := markPlayed (song_id sg) (library s3)\<rparr>;
          s5 = (if trackCount s4 > 1 then s4\<lparr>keyManager := next_key (keyManager s4)\<rparr> else s4)
      in (Inr \<lparr>track = \<lparr>song = sg, tempo = currentTempo s5, trackType = tt\<rparr>,
               wasMagicNumber = isMagicCall s0,
               candidatesConsidered = c,
               compatibilityScore = scoreFromCurrent (keyManager s5) (key sg)\<rparr>, s5))"
  using assms
  by (cases "selection s0")
     (simp add: selectTrack_def selection_def isMagicCall_def Let_def split: if_splits prod.splits)

lemma determineTrackType_frame:
  "trackCount (snd (determineTrackType s)) = trackCount s"
  "keyManager (snd (determineTrackType s)) = keyManager s"
  "options (snd (determineTrackType s)) = options s"
  "currentTempo (snd (determineTrackType s)) = currentTempo s"
  "library (snd (determineTrackType s)) = library s"
  "qrng (snd (determineTrackType s)) = qrng s"
  "lastTrackType (snd (determineTrackType s)) = fst (determineTrackType s)"
  by (simp_all add: determineTrackType_def Let_def)

lemma selectTrack_trackCount: "trackCount (snd (selectTrack s0)) = trackCount s0 + 1"
proof (cases "fst (selection s0)")
  case (Inl e)
  then show ?thesis by (simp add: selectTrack_Inl selection_frame)
next
  case (Inr p)
  then obtain sg c where "fst (selection s0) = Inr (sg, c)" by (cases p) auto
  then show ?thesis
    by (simp add: selectTrack_Inr Let_def determineTrackType_frame selection_frame)
qed

lemma selectTrack_options: "options (snd (selectTrack s0)) = options s0"
proof (cases "fst (selection s0)")
  case (Inl e)
  then show ?thesis by (simp add: selectTrack_Inl selection_frame)
next
  case (Inr p)
  then obtain sg c where "fst (selection s0) = Inr (sg, c)" by (cases p) auto
  then show ?thesis
    by (simp add: selectTrack_Inr Let_def determineTrackType_frame selection_frame)
qed

lemma selectTrack_wasMagicNumber:
  "fst (selectTrack s0) = Inr r \<Longrightarrow> wasMagicNumber r = isMagicCall s0"
proof (cases "fst (selection s0)")
  case (Inl e)
  assume "fst (selectTrack s0) = Inr r"
  with Inl show ?thesis by (simp add: selectTrack_Inl)
next
  case (Inr p)
  assume a: "fst (selectTrack s0) = Inr r"
  from Inr obtain sg c where "fst (selection s0) = Inr (sg, c)" by (cases p) auto
  with a show ?thesis
    by (auto simp add: selectTrack_Inr Let_def)
qed

lemma selectTrack_trackType:
  assumes "fst (selectTrack s0) = Inr r"
  shows "trackType (track r) =
           (if trackCount s0 = 0 then lead
            else if lastTrackType s0 = lead then body
            else if mathRandom s0 0 < double_0_3 then body else lead)"
    and "lastTrackType (snd (selectTrack s0)) = trackType (track r)"
proof -
  obtain sg c where s: "fst (selection s0) = Inr (sg, c)"
    using assms by (cases "fst (selection s0)") (auto simp: selectTrack_Inl)
  have t: "trackType (track r) = fst (determineTrackType (snd (selection s0)))"
    using assms by (auto simp add: selectTrack_Inr[OF s] Let_def)
  show "trackType (track r) =
           (if trackCount s0 = 0 then lead
            else if lastTrackType s0 = lead then body
            else if mathRandom s0 0 < double_0_3 then body else lead)"
    unfolding t by (simp add: determineTrackType_def Let_def selection_frame)
  show "lastTrackType (snd (selectTrack s0)) = trackType (track r)"
    unfolding t by (simp add: selectTrack_Inr[OF s] Let_def determineTrackType_frame)
qed

lemma selectTrack_error_lastTrackType:
  "fst (selectTrack s0) = Inl e \<Longrightarrow> lastTrackType (snd (selectTrack s0)) = lastTrackType s0"
proof (cases "fst (selection s0)")
  case (Inl e')
  then show ?thesis by (simp add: selectTrack_Inl selection_frame)
next
  case (Inr p)
  assume a: "fst (selectTrack s0) = Inl e"
  from Inr obtain sg c where "fst (selection s0) = Inr (sg, c)" by (cases p) auto
  with a show ?thesis by (simp add: selectTrack_Inr Let_def)
qed

lemma selectTracks_Cons:
  "fst (selectTracks (bg # bgs) s) =
     fst (selectTrack (s\<lparr>qrng := bg (qrng s)\<rparr>))
       # fst (selectTracks bgs (snd (selectTrack (s\<lparr>qrng := bg (qrng s)\<rparr>))))"
  "snd (selectTracks (bg # bgs) s) =
     snd (selectTracks bgs (snd (selectTrack (s\<lparr>qrng := bg (qrng s)\<rparr>))))"
  by (simp_all split: prod.splits)

lemma selectTracks_length: "length (fst (selectTracks bgs s)) = length bgs"
  by (induction bgs arbitrary: s) (simp_all add: selectTracks_Cons del: selectTracks.simps(2))

lemma selectTracks_trackCount:
  "trackCount (snd (selectTracks bgs s)) = trackCount s + length bgs"
  by (induction bgs arbitrary: s)
     (simp_all add: selectTracks_Cons selectTrack_trackCount del: selectTracks.simps(2))

lemma selectTracks_wasMagicNumber:
  "i < length bgs \<Longrightarrow> fst (selectTracks bgs s) ! i = Inr r \<Longrightarrow>
   wasMagicNumber r = (useMagicNumber (options s) \<and> (trackCount s + i + 1) mod 5 = 0)"
proof (induction bgs arbitrary: s i)
  case Nil
  then show ?case by simp
next
  case (Cons bg bgs)
  let ?s0 = "s\<lparr>qrng := bg (qrng s)\<rparr>"
  let ?s1 = "snd (selectTrack ?s0)"
  show ?case
  proof (cases i)
    case 0
    with Cons.prems have "fst (selectTrack ?s0) = Inr r"
      by (simp add: selectTracks_Cons del: selectTracks.simps(2))
    from selectTrack_wasMagicNumber[OF this] 0 show ?thesis
      by (simp add: isMagicCall_def)
  next
    case (Suc j)
    with Cons.prems have "j < length bgs" "fst (selectTracks bgs ?s1) ! j = Inr r"
      by (simp_all add: selectTracks_Cons del: selectTracks.simps(2))
    from Cons.IH[OF this] Suc show ?thesis
      by (simp add: selectTrack_trackCount selectTrack_options)
  qed
qed

lemma selectTracks_after_lead:
  "Suc i < length bgs \<Longrightarrow> fst (selectTracks bgs s) ! i = Inr r \<Longrightarrow>
   trackType (track r) = lead \<Longrightarrow> fst (selectTracks bgs s) ! Suc i = Inr r' \<Longrightarrow>
   trackType (track r') = body"
proof (induction bgs arbitrary: s i)
  case Nil
  then show ?case by simp
next
  case (Cons bg bgs)
  let ?s0 = "s\<lparr>qrng := bg (qrng s)\<rparr>"
  let ?s1 = "snd (selectTrack ?s0)"
  show ?case
  proof (cases i)
    case 0
    with Cons.prems have a: "fst (selectTrack ?s0) = Inr r"
      by (simp add: selectTracks_Cons del: selectTracks.simps(2))
    obtain bg' bgs' where b: "bgs = bg' # bgs'"
      using Cons.prems(1) 0 by (cases bgs) auto
    let ?s2 = "?s1\<lparr>qrng := bg' (qrng ?s1)\<rparr>"
    have c: "fst (selectTrack ?s2) = Inr r'"
      using Cons.prems(4) 0 b by (simp add: selectTracks_Cons del: selectTracks.simps(2))
    have "lastTrackType ?s2 = lead"
      using selectTrack_trackType(2)[OF a] Cons.prems(3) by simp
    moreover have "trackCount ?s2 \<noteq> 0"
      by (simp add: selectTrack_trackCount)
    ultimately show ?thesis
      using selectTrack_trackType(1)[OF c] by simp
  next
    case (Suc j)
    with Cons.prems have "Suc j < length bgs" "fst (selectTracks bgs ?s1) ! j = Inr r"
      "fst (selectTracks bgs ?s1) ! Suc j = Inr r'"
      by (simp_all add: selectTracks_Cons del: selectTracks.simps(2))
    from Cons.IH[OF this(1,2) Cons.prems(3) this(3)] show ?thesis .
  qed
qed

lemma selectTracks_first_lead:
  "trackCount s = 0 \<Longrightarrow> bgs \<noteq> [] \<Longrightarrow> fst (selectTracks bgs s) ! 0 = Inr r \<Longrightarrow>
   trackType (track r) = lead"
proof -
  assume t: "trackCount s = 0" and n: "bgs \<noteq> []" and r: "fst (selectTracks bgs s) ! 0 = Inr r"
  obtain bg bgs' where b: "bgs = bg # bgs'" using n by (cases bgs) auto
  have "fst (selectTrack (s\<lparr>qrng := bg (qrng s)\<rparr>)) = Inr r"
    using r b by (simp add: selectTracks_Cons del: selectTracks.simps(2))
  from selectTrack_trackType(1)[OF this] t show ?thesis by simp
qed

lemma selectTracks_next_result_body:
  assumes "lastTrackType s = lead" and "trackCount s \<noteq> 0" and "j < length bgs"
      and "\<forall>k<j. \<exists>e. fst (selectTracks bgs s) ! k = Inl e"
      and "fst (selectTracks bgs s) ! j = Inr r'"
  shows "trackType (track r') = body"
  using assms
proof (induction bgs arbitrary: s j)
  case Nil
  then show ?case by simp
next
  case (Cons bg bgs)
  let ?s0 = "s\<lparr>qrng := bg (qrng s)\<rparr>"
  let ?s1 = "snd (selectTrack ?s0)"
  show ?case
  proof (cases j)
    case 0
    with Cons.prems have "fst (selectTrack ?s0) = Inr r'"
      by (simp add: selectTracks_Cons del: selectTracks.simps(2))
    from selectTrack_trackType(1)[OF this] Cons.prems(1,2) show ?thesis by simp
  next
    case (Suc j')
    obtain e where e: "fst (selectTrack ?s0) = Inl e"
      using Cons.prems(4) Suc by (auto simp add: selectTracks_Cons simp del: selectTracks.simps(2))
    have l: "lastTrackType ?s1 = lead"
      using selectTrack_error_lastTrackType[OF e] Cons.prems(1) by simp
    have c: "trackCount ?s1 \<noteq> 0" by (simp add: selectTrack_trackCount)
    have j: "j' < length bgs" using Cons.prems(3) Suc by simp
    have a: "\<forall>k<j'. \<exists>e. fst (selectTracks bgs ?s1) ! k = Inl e"
    proof (intro allI impI)
      fix k assume "k < j'"
      then have "Suc k < j" using Suc by simp
      from Cons.prems(4)[rule_format, OF this]
      show "\<exists>e. fst (selectTracks bgs ?s1) ! k = Inl e"
        by (simp add: selectTracks_Cons del: selectTracks.simps(2))
    qed
    have r: "fst (selectTracks bgs ?s1) ! j' = Inr r'"
      using Cons.prems(5) Suc by (simp add: selectTracks_Cons del: selectTracks.simps(2))
    from Cons.IH[OF l c j a r] show ?thesis .
  qed
qed

lemma selectTracks_after_lead_skipping_errors:
  assumes "i < j" and "j < length bgs"
      and "fst (selectTracks bgs s) ! i = Inr r" and "trackType (track r) = lead"
      and "\<forall>k. i < k \<and> k < j \<longrightarrow> (\<exists>e. fst (selectTracks bgs s) ! k = Inl e)"
      and "fst (selectTracks bgs s) ! j = Inr r'"
  shows "trackType (track r') = body"
  using assms
proof (induction bgs arbitrary: s i j)
  case Nil
  then show ?case by simp
next
  case (Cons bg bgs)
  let ?s0 = "s\<lparr>qrng := bg (qrng s)\<rparr>"
  let ?s1 = "snd (selectTrack ?s0)"
  obtain j' where j': "j = Suc j'" using Cons.prems(1) by (cases j) simp_all
  have jl: "j' < length bgs" using Cons.prems(2) j' by simp
  have rj: "fst (selectTracks bgs ?s1) ! j' = Inr r'"
    using Cons.prems(6) j' by (simp add: selectTracks_Cons del: selectTracks.simps(2))
  show ?case
  proof (cases i)
    case 0
    with Cons.prems have a: "fst (selectTrack ?s0) = Inr r"
      by (simp add: selectTracks_Cons del: selectTracks.simps(2))
    have l: "lastTrackType ?s1 = lead"
      using selectTrack_trackType(2)[OF a] Cons.prems(4) by simp
    have c: "trackCount ?s1 \<noteq> 0" by (simp add: selectTrack_trackCount)
    have e: "\<forall>k<j'. \<exists>e. fst (selectTracks bgs ?s1) ! k = Inl e"
    proof (intro allI impI)
      fix k assume "k < j'"
      then have "i < Suc k \<and> Suc k < j" using 0 j' by simp
      from Cons.prems(5)[rule_format, OF this]
      show "\<exists>e. fst (selectTracks bgs ?s1) ! k = Inl e"
        by (simp add: selectTracks_Cons del: selectTracks.simps(2))
    qed
    from selectTracks_next_result_body[OF l c jl e rj] show ?thesis .
  next
    case (Suc i')
    have ij: "i' < j'" using Cons.prems(1) Suc j' by simp
    have ri: "fst (selectTracks bgs ?s1) ! i' = Inr r"
      using Cons.prems(3) Suc by (simp add: selectTracks_Cons del: selectTracks.simps(2))
    have e: "\<forall>k. i' < k \<and> k < j' \<longrightarrow> (\<exists>e. fst (selectTracks bgs ?s1) ! k = Inl e)"
    proof (intro allI impI)
      fix k assume "i' < k \<and> k < j'"
      then have "i < Suc k \<and> Suc k < j" using Suc j' by simp
      from Cons.prems(5)[rule_format, OF this]
      show "\<exists>e. fst (selectTracks bgs ?s1) ! k = Inl e"
        by (simp add: selectTracks_Cons del: selectTracks.simps(2))
    qed
    from Cons.IH[OF ij jl ri Cons.prems(4) e rj] show ?thesis .
  qed
qed

lemma new_SongSelector_trackCount:
  "trackCount (new_SongSelector lib km rng opts mr) = 0"
  by (simp add: new_SongSelector_def)

lemma selector_reset_trackCount: "trackCount (selector_reset a b s) = 0"
  unfolding selector_reset_def Let_def by simp

lemmas fresh_trackCount = new_SongSelector_trackCount selector_reset_trackCount

text \<open>
  What does hold of the track types. In a run of \<open>selectTrack\<close> calls that starts with
  the count at 0 (a new selector, or one just reset: both have the count 0), the first
  call, when it returns, returns the type \<open>lead\<close>; and a result of type \<open>lead\<close> is
  followed, at the next call that returns, by a result of type \<open>body\<close>, however many
  calls raise in between: a call that raises leaves \<open>lastTrackType\<close> as it is.
\<close>

lemma track_type_sequence:
  assumes "trackCount s = 0"
  shows "(\<forall>r. bgs \<noteq> [] \<and> fst (selectTracks bgs s) ! 0 = Inr r \<longrightarrow> trackType (track r) = lead)
       \<and> (\<forall>i j r r'. i < j \<and> j < length bgs \<and> fst (selectTracks bgs s) ! i = Inr r
               \<and> trackType (track r) = lead
               \<and> (\<forall>k. i < k \<and> k < j \<longrightarrow> (\<exists>e. fst (selectTracks bgs s) ! k = Inl e))
               \<and> fst (selectTracks bgs s) ! j = Inr r'
             \<longrightarrow> trackType (track r') = body)
       \<and> trackCount (new_SongSelector lib km rng opts mr) = 0
       \<and> trackCount (selector_reset a b s0) = 0"
proof (intro conjI allI impI)
  fix r
  assume "bgs \<noteq> [] \<and> fst (selectTracks bgs s) ! 0 = Inr r"
  then show "trackType (track r) = lead"
    using selectTracks_first_lead[OF assms, of bgs r] by simp
next
  fix i j r r'
  assume a: "i < j \<and> j < length bgs \<and> fst (selectTracks bgs s) ! i = Inr r
            \<and> trackType (track r) = lead
            \<and> (\<forall>k. i < k \<and> k < j \<longrightarrow> (\<exists>e. fst (selectTracks bgs s) ! k = Inl e))
            \<and> fst (selectTracks bgs s) ! j = Inr r'"
  show "trackType (track r') = body"
    by (rule selectTracks_after_lead_skipping_errors[of i j bgs s r r']) (simp_all add: a)
qed (simp_all add: fresh_trackCount)

lemma session_two_brief:
  "map (map_sum id brief) (fst (selectTracks [id, id, id, id, id] sel_two)) =
     [Inr (1, lead, False, 2, 10), Inr (2, body, False, 1, 7), Inr (1, lead, False, 2, 5),
      Inr (2, body, False, 1, 3), Inr (1, lead, True, 2, 2)]"
  by code_simp

lemma map_sum_brief:
  "map (map_sum id (f \<circ> brief)) xs = map (map_sum id f) (map (map_sum id brief) xs)"
  by (induction xs) (simp_all add: sum.map_comp comp_def)

lemma sel_two_fresh: "trackCount sel_two = 0" "useMagicNumber (options sel_two)"
  by (simp_all add: sel_two_def new_SongSelector_def default_options_def)

lemma track_type_sequence_example:
  "trackCount sel_two = 0
   \<and> map (map_sum id (fst \<circ> snd \<circ> brief)) (fst (selectTracks [id, id, id, id, id] sel_two))
       = [Inr lead, Inr body, Inr lead, Inr body, Inr lead]"
proof -
  have e: "map (map_sum id (fst \<circ> snd \<circ> brief)) (fst (selectTracks [id, id, id, id, id] sel_two))
       = [Inr lead, Inr body, Inr lead, Inr body, Inr lead]"
    unfolding map_sum_brief session_two_brief by simp
  show ?thesis using sel_two_fresh(1) e by (intro conjI)
qed

text \<open>
  C6 fails on the code. \<open>selectTrack\<close> increments \<open>trackCount\<close> before the selection,
  and the selection can raise. On the two-track catalogue with the default options, a new
  selector whose next 16 cached digits are \<open>ffffffffffffffff\<close> raises "Failed to get
  choice" at its first call (the defect of C4), the count already at 1. The second call
  runs with the count at 2 and \<open>lastTrackType\<close> still \<open>body\<close>, so \<open>determineTrackType\<close>
  does not take its branch \<open>trackCount === 1\<close> ("First track is always a lead") and asks
  \<open>Math.random()\<close>, which at 0.125, below 0.3, gives \<open>body\<close>: the first result of the
  session has the type \<open>body\<close>. The same happens after \<open>reset()\<close>, which leaves the cache
  as it is.
\<close>

theorem first_result_after_raise:
  "new_SongLibrary [song_A, song_B] = Inr lib_two
   \<and> trackCount sel_raise = 0 \<and> lastTrackType sel_raise = body
   \<and> fst (selectTrack sel_raise) = Inl FailedChoice
   \<and> trackCount (snd (selectTrack sel_raise)) = 1
   \<and> lastTrackType (snd (selectTrack sel_raise)) = body
   \<and> map (map_sum id brief) (fst (selectTracks [id, id] sel_raise))
       = [Inl FailedChoice, Inr (1, body, False, 2, 7)]
   \<and> map (map_sum id brief) (fst (selectTracks [id, id] (selector_reset True True sel_raise)))
       = [Inl FailedChoice, Inr (1, body, False, 2, 7)]"
  by code_simp

lemma getUnplayed_no_filter:
  "getUnplayed no_filter lib = filter (\<lambda>sg. song_id sg \<notin> playedIds lib) (allSongs lib)"
  by (simp add: getUnplayed_def filter_songs_def no_filter_def Let_def)

lemma getUnplayed_key_filter:
  "getUnplayed (key_filter k) lib =
     filter (\<lambda>sg. key sg = k \<and> song_id sg \<notin> playedIds lib) (allSongs lib)"
  by (auto simp add: getUnplayed_def filter_songs_def key_filter_def no_filter_def Let_def
      intro: filter_cong)

lemma filter_songs_key_filter:
  "filter_songs (key_filter k) lib = filter (\<lambda>sg. key sg = k) (allSongs lib)"
  by (simp add: filter_songs_def key_filter_def no_filter_def Let_def)

lemma selectMagicNumber_draw:
  assumes "fst (selectMagicNumber s) = Inr (sg, c)"
  shows "fst (getChoice (wildcardCandidates (library s)) (qrng s)) = Inr sg"
    and "c = length (wildcardCandidates (library s))"
    and "playedIds (library (snd (selectMagicNumber s))) = wildcardPlayed (library s)"
  using assms
  by (auto simp add: selectMagicNumber_def getUnplayed_no_filter wildcardCandidates_def
        wildcardPlayed_def Let_def library_reset_def split: prod.splits sum.splits if_splits)

lemma selectTrack_magic_draw:
  assumes m: "isMagicCall s" and r: "fst (selectTrack s) = Inr r"
  shows "wasMagicNumber r"
    and "fst (getChoice (wildcardCandidates (library s)) (qrng s)) = Inr (song (track r))"
    and "candidatesConsidered r = length (wildcardCandidates (library s))"
    and "playedIds (library (snd (selectTrack s)))
           = insert (song_id (song (track r))) (wildcardPlayed (library s))"
proof -
  let ?s1 = "s\<lparr>trackCount := trackCount s + 1\<rparr>"
  obtain sg c where s: "fst (selection s) = Inr (sg, c)"
    using r by (cases "fst (selection s)") (auto simp: selectTrack_Inl)
  have sel: "selection s = selectMagicNumber ?s1"
    using m by (simp add: selection_def)
  have g: "fst (selectMagicNumber ?s1) = Inr (sg, c)" using s sel by simp
  have e: "song (track r) = sg" "candidatesConsidered r = c" "wasMagicNumber r = isMagicCall s"
    using r by (auto simp add: selectTrack_Inr[OF s] Let_def)
  show "wasMagicNumber r" using e m by simp
  show "fst (getChoice (wildcardCandidates (library s)) (qrng s)) = Inr (song (track r))"
    using selectMagicNumber_draw(1)[OF g] e by simp
  show "candidatesConsidered r = length (wildcardCandidates (library s))"
    using selectMagicNumber_draw(2)[OF g] e by simp
  show "playedIds (library (snd (selectTrack s)))
           = insert (song_id (song (track r))) (wildcardPlayed (library s))"
    using selectMagicNumber_draw(3)[OF g] e
    by (simp add: selectTrack_Inr[OF s] Let_def determineTrackType_frame sel markPlayed_def)
qed

lemma getChoice_draw:
  assumes "fst (getChoice xs r) = Inr x"
  shows "\<exists>f. fst (getFloat r) = Inr f
           \<and> 0 \<le> drawIndex f (length xs) \<and> drawIndex f (length xs) < int (length xs)
           \<and> x = xs ! nat (drawIndex f (length xs))"
proof -
  have ne: "length xs \<noteq> 0" using assms by (auto simp add: getChoice_def)
  obtain res r' where g: "getFloat r = (res, r')" by (cases "getFloat r")
  show ?thesis
  proof (cases res)
    case (Inl e)
    then have "fst (getChoice xs r) = Inl e"
      using g ne by (simp add: getChoice_def getInteger_def Let_def)
    with assms show ?thesis by simp
  next
    case (Inr f)
    have i: "getInteger 0 (int (length xs) - 1) r = (Inr (drawIndex f (length xs)), r')"
      using g Inr ne by (simp add: getInteger_def Let_def drawIndex_def)
    then have "0 \<le> drawIndex f (length xs) \<and> drawIndex f (length xs) < int (length xs)
         \<and> x = xs ! nat (drawIndex f (length xs))"
      using assms ne by (auto simp add: getChoice_def split: if_splits)
    then show ?thesis using g Inr by auto
  qed
qed

text \<open>
  C5. With wildcard mode enabled and the count at 0 at the start of a run (a new selector
  or one just reset), the result of the n-th call has \<open>wasMagicNumber\<close> exactly when n
  is a multiple of 5 (the call at list position \<open>i\<close> is the \<open>i + 1\<close>-th). A call that
  is a multiple-of-5 call takes as candidates all unplayed tracks with no key filter, or
  all tracks, the played set emptied first, when none is unplayed; with \<open>n\<close> candidates
  and \<open>f\<close> the float the random source returns from its next 16 digits, the track of the
  result is the candidate at position \<open>floor(f * n)\<close>, and that position is one of the
  list's; the track drawn joins the played set.
\<close>

theorem wildcard_cadence_draw:
  assumes "useMagicNumber (options s)" and "trackCount s = 0"
  shows "(\<forall>i r. i < length bgs \<and> fst (selectTracks bgs s) ! i = Inr r
            \<longrightarrow> (wasMagicNumber r \<longleftrightarrow> (i + 1) mod 5 = 0))
       \<and> (\<forall>s' r. options s' = options s \<and> (trackCount s' + 1) mod 5 = 0
                \<and> fst (selectTrack s') = Inr r
            \<longrightarrow> wasMagicNumber r
              \<and> (\<exists>f. fst (getFloat (qrng s')) = Inr f
                    \<and> 0 \<le> drawIndex f (length (wildcardCandidates (library s')))
                    \<and> drawIndex f (length (wildcardCandidates (library s')))
                          < int (length (wildcardCandidates (library s')))
                    \<and> song (track r) = wildcardCandidates (library s')
                          ! nat (drawIndex f (length (wildcardCandidates (library s')))))
              \<and> candidatesConsidered r = length (wildcardCandidates (library s'))
              \<and> playedIds (library (snd (selectTrack s')))
                   = insert (song_id (song (track r))) (wildcardPlayed (library s')))
       \<and> trackCount (new_SongSelector lib km rng opts mr) = 0
       \<and> trackCount (selector_reset a b s0) = 0"
proof (intro conjI allI impI)
  fix i r
  assume "i < length bgs \<and> fst (selectTracks bgs s) ! i = Inr r"
  then show "wasMagicNumber r \<longleftrightarrow> (i + 1) mod 5 = 0"
    using selectTracks_wasMagicNumber[of i bgs s r] assms by simp
next
  fix s' r
  assume a: "options s' = options s \<and> (trackCount s' + 1) mod 5 = 0 \<and> fst (selectTrack s') = Inr r"
  then have m: "isMagicCall s'" using assms(1) by (simp add: isMagicCall_def)
  from a have r: "fst (selectTrack s') = Inr r" by simp
  show "wasMagicNumber r" by (rule selectTrack_magic_draw(1)[OF m r])
  show "\<exists>f. fst (getFloat (qrng s')) = Inr f
          \<and> 0 \<le> drawIndex f (length (wildcardCandidates (library s')))
          \<and> drawIndex f (length (wildcardCandidates (library s')))
                < int (length (wildcardCandidates (library s')))
          \<and> song (track r) = wildcardCandidates (library s')
                ! nat (drawIndex f (length (wildcardCandidates (library s'))))"
    by (rule getChoice_draw[OF selectTrack_magic_draw(2)[OF m r]])
  show "candidatesConsidered r = length (wildcardCandidates (library s'))"
    by (rule selectTrack_magic_draw(3)[OF m r])
  show "playedIds (library (snd (selectTrack s')))
          = insert (song_id (song (track r))) (wildcardPlayed (library s'))"
    by (rule selectTrack_magic_draw(4)[OF m r])
qed (simp_all add: fresh_trackCount)

lemma session_two_half_brief:
  "map (map_sum id brief)
     (fst (selectTracks [id, id, id, id, (\<lambda>r. rng_with ''8000000000000000'')] sel_two)) =
     [Inr (1, lead, False, 2, 10), Inr (2, body, False, 1, 7), Inr (1, lead, False, 2, 5),
      Inr (2, body, False, 1, 3), Inr (2, lead, True, 2, 2)]"
  by code_simp

lemma sel_fifth_facts:
  "options sel_fifth = options sel_two" "(trackCount sel_fifth + 1) mod 5 = 0"
  "map_sum id brief (fst (selectTrack sel_fifth)) = Inr (2, lead, True, 2, 7)"
  "fst (getFloat (qrng sel_fifth)) = Inr (1 / 2)"
  "wildcardCandidates (library sel_fifth) = [song_A, song_B]"
  "drawIndex (1 / 2) 2 = 1"
  by code_simp+

theorem wildcard_cadence_draw_witness:
  "useMagicNumber (options sel_two) \<and> trackCount sel_two = 0
   \<and> map (map_sum id ((fst \<circ> snd \<circ> snd) \<circ> brief))
         (fst (selectTracks [id, id, id, id, (\<lambda>r. rng_with ''8000000000000000'')] sel_two))
       = [Inr False, Inr False, Inr False, Inr False, Inr True]
   \<and> options sel_fifth = options sel_two \<and> (trackCount sel_fifth + 1) mod 5 = 0
   \<and> map_sum id brief (fst (selectTrack sel_fifth)) = Inr (2, lead, True, 2, 7)
   \<and> fst (getFloat (qrng sel_fifth)) = Inr (1 / 2)
   \<and> drawIndex (1 / 2) (length (wildcardCandidates (library sel_fifth))) = 1
   \<and> wildcardCandidates (library sel_fifth) ! 1 = song_B
   \<and> playedIds (library (snd (selectTrack sel_fifth))) = {2}"
proof -
  note T = wildcard_cadence_draw[OF sel_two_fresh(2) sel_two_fresh(1),
      of "[id, id, id, id, (\<lambda>r. rng_with ''8000000000000000'')]"]
  have e: "map (map_sum id ((fst \<circ> snd \<circ> snd) \<circ> brief))
         (fst (selectTracks [id, id, id, id, (\<lambda>r. rng_with ''8000000000000000'')] sel_two))
       = [Inr False, Inr False, Inr False, Inr False, Inr True]"
    unfolding map_sum_brief session_two_half_brief by simp
  obtain r where r: "fst (selectTrack sel_fifth) = Inr r" and b: "brief r = (2, lead, True, 2, 7)"
    using sel_fifth_facts(3) by (cases "fst (selectTrack sel_fifth)") auto
  have h: "options sel_fifth = options sel_two \<and> (trackCount sel_fifth + 1) mod 5 = 0
          \<and> fst (selectTrack sel_fifth) = Inr r"
    using sel_fifth_facts(1,2) r by simp
  note T2 = T[THEN conjunct2, THEN conjunct1, rule_format, OF h]
  have p: "playedIds (library (snd (selectTrack sel_fifth)))
      = insert (song_id (song (track r))) (wildcardPlayed (library sel_fifth))"
    using T2 by (elim conjE)
  have w: "wildcardPlayed (library sel_fifth) = {}"
    by (simp add: wildcardPlayed_def sel_fifth_def sel_two_def new_SongSelector_def lib_two_def)
  have p2: "playedIds (library (snd (selectTrack sel_fifth))) = {2}"
    using p b w by (simp add: brief_def)
  have "length (wildcardCandidates (library sel_fifth)) = 2"
    using sel_fifth_facts(5) by simp
  then have d: "drawIndex (1 / 2) (length (wildcardCandidates (library sel_fifth))) = 1"
    "wildcardCandidates (library sel_fifth) ! 1 = song_B"
    using sel_fifth_facts(5,6) by (simp_all only: nth_Cons_0 nth_Cons_Suc One_nat_def)
  show ?thesis
    using sel_two_fresh e sel_fifth_facts(1,2,3,4) d p2 by blast
qed

subsection \<open>Coverage\<close>

lemma validateSongs_keys:
  "validateSongs seen songs = None \<Longrightarrow> \<forall>sg \<in> set songs. isValidKey (key sg)"
  by (induction songs arbitrary: seen) (auto simp: isValidKey_def split: if_splits)

lemma set_insert_by: "set (insert_by cmp x ys) = insert x (set ys)"
  by (induction ys) auto

lemma set_sort_by: "set (sort_by cmp xs) = set xs"
  unfolding sort_by_def by (induction xs) (simp_all add: set_insert_by)

lemma set_slice0: "set (slice0 xs n) \<subseteq> set xs"
  by (auto simp: slice0_def dest: in_set_takeD)

lemma getChoice_mem: "fst (getChoice xs r) = Inr x \<Longrightarrow> x \<in> set xs"
  by (auto simp: getChoice_def split: prod.splits sum.splits if_splits)

lemma collectCandidates_subset:
  "set (collectCandidates lib pool keys acc)
     \<subseteq> set acc \<union> {sg \<in> set (allSongs lib). song_id sg \<notin> playedIds lib \<and> key sg \<in> set keys}"
proof (induction keys arbitrary: acc)
  case Nil
  then show ?case by simp
next
  case (Cons k keys)
  show ?case
    using Cons.IH[of "acc @ getUnplayed (key_filter k) lib"]
    by (auto simp add: Let_def getUnplayed_key_filter)
qed

lemma collectCandidates_keeps:
  "acc \<noteq> [] \<Longrightarrow> collectCandidates lib pool keys acc \<noteq> []"
  by (induction keys arbitrary: acc) (auto simp add: Let_def)

lemma collectCandidates_nonempty:
  assumes "1 \<le> pool" and "k0 \<in> set keys" and "getUnplayed (key_filter k0) lib \<noteq> []"
  shows "collectCandidates lib pool keys acc \<noteq> []"
  using assms(2)
proof (induction keys arbitrary: acc)
  case Nil
  then show ?case by simp
next
  case (Cons k keys)
  let ?c = "acc @ getUnplayed (key_filter k) lib"
  show ?case
  proof (cases "int (length ?c) \<ge> pool * 2")
    case True
    then have "?c \<noteq> []" using assms(1) by auto
    with True show ?thesis by (simp add: Let_def)
  next
    case False
    show ?thesis
    proof (cases "k = k0")
      case True
      then have "?c \<noteq> []" using assms(3) by simp
      from collectCandidates_keeps[OF this] False show ?thesis by (simp add: Let_def)
    next
      case k: False
      then have "k0 \<in> set keys" using Cons.prems by simp
      from Cons.IH[OF this] False show ?thesis by (simp add: Let_def)
    qed
  qed
qed


lemma normalCandidates_compatible:
  assumes pool: "1 \<le> candidatePoolSize (options s)"
      and cur: "isValidKey (currentKey (keyManager s))"
      and keys: "\<forall>sg \<in> set (allSongs (library s)). isValidKey (key sg)"
      and ex: "compatibleUnplayed s sg0"
  shows "fst (normalCandidates s) = s"
    and "snd (normalCandidates s) \<noteq> []"
    and "\<forall>sg \<in> set (snd (normalCandidates s)). compatibleUnplayed s sg"
proof -
  let ?cur = "currentKey (keyManager s)"
  let ?min = "minCompatibilityScore (options s)"
  let ?lib = "library s"
  let ?c1 = "getUnplayed (key_filter ?cur) ?lib"
  let ?keys = "filter (\<lambda>k. scoreCompatibility ?cur k \<ge> ?min) (getCompatibleKeys ?cur)"
  let ?c2 = "collectCandidates ?lib (candidatePoolSize (options s)) ?keys []"
  have sg0: "sg0 \<in> set (allSongs ?lib)" "song_id sg0 \<notin> playedIds ?lib"
    "scoreCompatibility ?cur (key sg0) \<ge> ?min"
    using ex by (simp_all add: compatibleUnplayed_def)
  have v0: "isValidKey (key sg0)" using keys sg0(1) by blast
  have min10: "?min \<le> 10" using score_facts(3)[OF cur v0] sg0(3) by linarith
  have c2: "getCompatibleCandidates s = ?c2"
    by (simp add: getCompatibleCandidates_def Let_def)
  have "(fst (normalCandidates s) = s \<and> snd (normalCandidates s) \<noteq> []
        \<and> (\<forall>sg \<in> set (snd (normalCandidates s)). compatibleUnplayed s sg))"
  proof (cases "?c1 = []")
    case False
    then have n: "normalCandidates s = (s, ?c1)"
      by (simp add: normalCandidates_nested Let_def)
    have "\<forall>sg \<in> set ?c1. compatibleUnplayed s sg"
    proof
      fix sg assume "sg \<in> set ?c1"
      then have m: "sg \<in> set (allSongs ?lib)" "key sg = ?cur" "song_id sg \<notin> playedIds ?lib"
        by (simp_all add: getUnplayed_key_filter)
      have "scoreCompatibility ?cur (key sg) = 10"
        using score_facts(4)[OF cur cur] m(2) by simp
      then show "compatibleUnplayed s sg"
        using m min10 by (simp add: compatibleUnplayed_def)
    qed
    with n False show ?thesis by simp
  next
    case True
    have k0: "key sg0 \<in> set ?keys"
      using set_getCompatibleKeys[OF cur] v0 sg0(3) by simp
    have "sg0 \<in> set (getUnplayed (key_filter (key sg0)) ?lib)"
      using sg0 by (simp add: getUnplayed_key_filter)
    then have "getUnplayed (key_filter (key sg0)) ?lib \<noteq> []" by auto
    from collectCandidates_nonempty[OF pool k0 this]
    have ne: "?c2 \<noteq> []" .
    then have n: "normalCandidates s = (s, ?c2)"
      using True by (simp add: normalCandidates_nested Let_def c2)
    have "\<forall>sg \<in> set ?c2. compatibleUnplayed s sg"
    proof
      fix sg assume "sg \<in> set ?c2"
      then have "sg \<in> set (allSongs ?lib) \<and> song_id sg \<notin> playedIds ?lib \<and> key sg \<in> set ?keys"
        using collectCandidates_subset[of ?lib "candidatePoolSize (options s)" ?keys "[]"]
        by auto
      then show "compatibleUnplayed s sg"
        by (simp add: compatibleUnplayed_def)
    qed
    with n ne show ?thesis by simp
  qed
  then show "fst (normalCandidates s) = s"
    and "snd (normalCandidates s) \<noteq> []"
    and "\<forall>sg \<in> set (snd (normalCandidates s)). compatibleUnplayed s sg"
    by blast+
qed

lemma scoreCandidates_set:
  "fst ` set (scoreCandidates s cands) =
     {sg \<in> set cands. scoreCompatibility (currentKey (keyManager s)) (key sg)
                         \<ge> minCompatibilityScore (options s)}"
  by (auto simp add: scoreCandidates_def Let_def set_sort_by image_iff)

lemma selectFromTopCandidates_mem:
  assumes "fst (selectFromTopCandidates s scored) = Inr sg" and "scored \<noteq> []"
  shows "sg \<in> fst ` set scored"
proof -
  let ?top = "slice0 scored (candidatePoolSize (options s))"
  obtain res r' where g: "getChoice ?top (qrng s) = (res, r')" by (cases "getChoice ?top (qrng s)")
  with assms obtain sel where "res = Inr sel" "sg = fst sel"
    by (cases res) (auto simp add: selectFromTopCandidates_def Let_def)
  then have "sel \<in> set ?top" using getChoice_mem[of ?top "qrng s" sel] g by simp
  then have "sel \<in> set scored"
    using set_slice0[of scored "candidatePoolSize (options s)"] by (rule subsetD[rotated])
  then show ?thesis using \<open>sg = fst sel\<close> by blast
qed

lemma selectNormal_compatible:
  assumes pool: "1 \<le> candidatePoolSize (options s)"
      and cur: "isValidKey (currentKey (keyManager s))"
      and keys: "\<forall>sg \<in> set (allSongs (library s)). isValidKey (key sg)"
      and ex: "compatibleUnplayed s sg0"
      and r: "fst (selectNormal s) = Inr (sg, c)"
  shows "compatibleUnplayed s sg" and "library (snd (selectNormal s)) = library s"
proof -
  note n = normalCandidates_compatible[OF pool cur keys ex]
  obtain s1 cands where nc: "normalCandidates s = (s1, cands)" by (cases "normalCandidates s")
  have s1: "s1 = s" and ne: "cands \<noteq> []" and all: "\<forall>x \<in> set cands. compatibleUnplayed s x"
    using n nc by simp_all
  let ?scored = "scoreCandidates s cands"
  have fs: "fst ` set ?scored = set cands"
    using all by (auto simp add: scoreCandidates_set compatibleUnplayed_def)
  then have sne: "?scored \<noteq> []" using ne by auto
  have "fst (selectFromTopCandidates s ?scored) = Inr sg"
    using r by (simp add: selectNormal_def nc s1 Let_def split: prod.splits sum.splits)
  from selectFromTopCandidates_mem[OF this sne] fs all
  show "compatibleUnplayed s sg" by blast
  show "library (snd (selectNormal s)) = library s"
    using s1 nc by (simp add: selectNormal_snd selectFromTopCandidates_frame)
qed

lemma session_far_brief:
  "map (map_sum id brief) (fst (selectTracks [id, id] sel_far))
     = [Inr (1, lead, False, 1, 10), Inr (1, body, False, 1, 7)]"
  by code_simp

text \<open>
  C1 as stated fails. On the catalogue of track 1 (key 1) and track 2 (key 6), with
  wildcard mode disabled and the key manager at key 1, the first call selects track 1.
  At the second call no unplayed track has key 1 or a key that scores 5 or more against
  key 1 (key 6 scores 1), so \<open>selectNormal\<close> resets the catalogue and takes the tracks of
  key 1: track 1 is selected a second time while track 2 has never been selected.
\<close>

theorem coverage_counterexample:
  "new_SongLibrary [song_A, song_F] = Inr lib_far
   \<and> \<not> useMagicNumber (options sel_far)
   \<and> library sel_far = lib_far \<and> trackCount sel_far = 0
   \<and> map (map_sum id (fst \<circ> brief)) (fst (selectTracks [id, id] sel_far)) = [Inr 1, Inr 1]
   \<and> song_id ` set (allSongs lib_far) = {1, 2}"
proof -
  have "new_SongLibrary [song_A, song_F] = Inr lib_far"
    by (simp add: new_SongLibrary_def lib_far_def song_A_def song_F_def)
  moreover have "\<not> useMagicNumber (options sel_far)" "library sel_far = lib_far"
    "trackCount sel_far = 0"
    by (simp_all add: sel_far_def new_SongSelector_def)
  moreover have "map (map_sum id (fst \<circ> brief)) (fst (selectTracks [id, id] sel_far))
      = [Inr 1, Inr 1]"
    unfolding map_sum_brief session_far_brief by simp
  moreover have "song_id ` set (allSongs lib_far) = {1, 2}"
    by (simp add: lib_far_def song_A_def song_F_def)
  ultimately show ?thesis by blast
qed

text \<open>
  C1, amended. With wildcard mode disabled and a pool size of at least 1, a
  \<open>selectTrack\<close> call made while some unplayed track is compatible with the current key
  (its key scores at least \<open>minCompatibilityScore\<close> against it) returns a track that is
  unplayed and compatible, and adds it to the played set without a reset: no track is
  selected a second time while an unplayed compatible track remains. (When none
  remains the catalogue is reset, whatever is unplayed at other keys.)
\<close>

theorem selectTrack_unplayed_first:
  assumes "\<not> useMagicNumber (options s)"
      and "1 \<le> candidatePoolSize (options s)"
      and "isValidKey (currentKey (keyManager s))"
      and "validateSongs {} (allSongs (library s)) = None"
      and "compatibleUnplayed s sg0"
      and "fst (selectTrack s) = Inr r"
  shows "compatibleUnplayed s (song (track r))
       \<and> playedIds (library (snd (selectTrack s)))
            = insert (song_id (song (track r))) (playedIds (library s))"
proof -
  let ?s1 = "s\<lparr>trackCount := trackCount s + 1\<rparr>"
  have keys: "\<forall>sg \<in> set (allSongs (library ?s1)). isValidKey (key sg)"
    using validateSongs_keys[OF assms(4)] by simp
  have ex: "compatibleUnplayed ?s1 sg0"
    using assms(5) by (simp add: compatibleUnplayed_def)
  obtain sg c where s: "fst (selection s) = Inr (sg, c)"
    using assms(6) by (cases "fst (selection s)") (auto simp: selectTrack_Inl)
  have sel: "selection s = selectNormal ?s1"
    using assms(1) by (simp add: selection_def isMagicCall_def)
  have g: "fst (selectNormal ?s1) = Inr (sg, c)" using s sel by simp
  have p: "1 \<le> candidatePoolSize (options ?s1)" "isValidKey (currentKey (keyManager ?s1))"
    using assms(2,3) by simp_all
  note n = selectNormal_compatible[OF p keys ex g]
  have e: "song (track r) = sg"
    using assms(6) by (auto simp add: selectTrack_Inr[OF s] Let_def)
  have "compatibleUnplayed s sg" using n(1) by (simp add: compatibleUnplayed_def)
  moreover have "playedIds (library (snd (selectTrack s))) = insert (song_id sg) (playedIds (library s))"
    using n(2) by (simp add: selectTrack_Inr[OF s] Let_def determineTrackType_frame sel markPlayed_def)
  ultimately show ?thesis using e by simp
qed

lemma selectTrack_far_brief:
  "map_sum id brief (fst (selectTrack sel_far)) = Inr (1, lead, False, 1, 10)"
  by code_simp

theorem selectTrack_unplayed_first_witness:
  "\<not> useMagicNumber (options sel_far)
   \<and> 1 \<le> candidatePoolSize (options sel_far)
   \<and> isValidKey (currentKey (keyManager sel_far))
   \<and> validateSongs {} (allSongs (library sel_far)) = None
   \<and> compatibleUnplayed sel_far song_A
   \<and> map_sum id brief (fst (selectTrack sel_far)) = Inr (1, lead, False, 1, 10)
   \<and> playedIds (library (snd (selectTrack sel_far))) = {1}"
proof -
  have h1: "\<not> useMagicNumber (options sel_far)"
    and h2: "1 \<le> candidatePoolSize (options sel_far)"
    and h3: "isValidKey (currentKey (keyManager sel_far))"
    by (simp_all add: sel_far_def new_SongSelector_def default_options_def new_KeyManager_def
          isValidKey_def)
  have l: "library sel_far = lib_far" "playedIds lib_far = {}"
    by (simp_all add: sel_far_def new_SongSelector_def lib_far_def)
  have h4: "validateSongs {} (allSongs (library sel_far)) = None"
    by (simp add: l lib_far_def song_A_def song_F_def)
  have sc: "scoreCompatibility 1 1 = 10" by code_simp
  have h5: "compatibleUnplayed sel_far song_A"
    by (simp add: compatibleUnplayed_def sel_far_def new_SongSelector_def lib_far_def song_A_def
          default_options_def new_KeyManager_def sc)
  obtain r where r: "fst (selectTrack sel_far) = Inr r" and b: "brief r = (1, lead, False, 1, 10)"
    using selectTrack_far_brief by (cases "fst (selectTrack sel_far)") auto
  from selectTrack_unplayed_first[OF h1 h2 h3 h4 h5 r] b
  have "playedIds (library (snd (selectTrack sel_far))) = {1}"
    by (simp add: brief_def l)
  then show ?thesis using h1 h2 h3 h4 h5 selectTrack_far_brief by blast
qed

section \<open>Rounding, and the range of the random draws\<close>

lemma bitlen_pos: "0 < n \<Longrightarrow> bitlen n = Suc (bitlen (n div 2))"
  by (subst bitlen.simps) simp

lemma bitlen_nonpos: "n \<le> 0 \<Longrightarrow> bitlen n = 0"
  by (subst bitlen.simps) simp

lemma bitlen_upper: "0 \<le> n \<Longrightarrow> n < 2 ^ bitlen n"
proof (induction n rule: bitlen.induct)
  case (1 n)
  show ?case
  proof (cases "n \<le> 0")
    case True
    with 1(2) show ?thesis by (simp add: bitlen_nonpos)
  next
    case False
    then have p: "0 < n" by simp
    have "n div 2 < 2 ^ bitlen (n div 2)" using 1(1)[OF False] p by simp
    then have "n < 2 * 2 ^ bitlen (n div 2)" by linarith
    then show ?thesis by (simp add: bitlen_pos[OF p])
  qed
qed

lemma bitlen_lower: "0 < n \<Longrightarrow> 2 ^ (bitlen n - 1) \<le> n"
proof (induction n rule: bitlen.induct)
  case (1 n)
  then have p: "0 < n" by simp
  show ?case
  proof (cases "n div 2 \<le> 0")
    case True
    then have "bitlen (n div 2) = 0" by (rule bitlen_nonpos)
    then have "bitlen n = 1" by (simp add: bitlen_pos[OF p])
    then show ?thesis using p by simp
  next
    case False
    then have q: "0 < n div 2" by simp
    have "2 ^ (bitlen (n div 2) - 1) \<le> n div 2" using 1(1) p q by simp
    then have "2 * 2 ^ (bitlen (n div 2) - 1) \<le> n" by linarith
    moreover have "bitlen n - 1 = Suc (bitlen (n div 2) - 1)"
      by (simp add: bitlen_pos[OF p] bitlen_pos[OF q])
    ultimately show ?thesis by simp
  qed
qed

lemma toDouble_small: "n < 2 ^ 53 \<Longrightarrow> toDouble n = n"
  by (simp add: toDouble_def)

lemma toDouble_nonneg:
  assumes "0 \<le> n"
  shows "0 \<le> toDouble n"
proof (cases "n < 2 ^ 53")
  case True
  with assms show ?thesis by (simp add: toDouble_small)
next
  case False
  define e where "e = bitlen n - 53"
  have q: "0 \<le> n div 2 ^ e" using assms by (simp add: pos_imp_zdiv_nonneg_iff)
  have "toDouble n = (if n mod 2 ^ e < 2 ^ (e - 1) \<or> (n mod 2 ^ e = 2 ^ (e - 1) \<and> even (n div 2 ^ e))
                      then n div 2 ^ e else n div 2 ^ e + 1) * 2 ^ e"
    using False by (simp add: toDouble_def Let_def e_def)
  also have "\<dots> \<ge> 0" using q by simp
  finally show ?thesis .
qed

lemma toDouble_cases:
  assumes "\<not> n < 2 ^ 53"
  defines "e \<equiv> bitlen n - 53"
  shows "1 \<le> e" and "2 ^ (e + 52) \<le> n" and "n < 2 ^ (e + 53)"
    and "toDouble n = (n div 2 ^ e) * 2 ^ e
         \<or> (toDouble n = (n div 2 ^ e + 1) * 2 ^ e \<and> 2 ^ (e - 1) \<le> n mod 2 ^ e)"
proof -
  have n: "(2::int) ^ 53 \<le> n" using assms(1) by simp
  then have p: "0 < n" by (smt (verit) zero_less_power)
  have "(2::int) ^ 53 < 2 ^ bitlen n" using bitlen_upper[of n] n p by linarith
  then have b: "53 < bitlen n"
    using power_less_imp_less_exp[of "2::int" 53 "bitlen n"] by simp
  then show e1: "1 \<le> e" by (simp add: e_def)
  have be: "bitlen n = e + 53" using b by (simp add: e_def)
  show "2 ^ (e + 52) \<le> n" using bitlen_lower[OF p] by (simp add: be add.commute)
  show "n < 2 ^ (e + 53)" using bitlen_upper[of n] p by (simp add: be)
  have "toDouble n = (if n mod 2 ^ e < 2 ^ (e - 1) \<or> (n mod 2 ^ e = 2 ^ (e - 1) \<and> even (n div 2 ^ e))
                      then n div 2 ^ e else n div 2 ^ e + 1) * 2 ^ e"
    using assms(1) by (simp add: toDouble_def Let_def e_def)
  then show "toDouble n = (n div 2 ^ e) * 2 ^ e
         \<or> (toDouble n = (n div 2 ^ e + 1) * 2 ^ e \<and> 2 ^ (e - 1) \<le> n mod 2 ^ e)"
    by (auto split: if_splits)
qed

lemma toDouble_mult_below:
  assumes r: "1 \<le> r" "r \<le> 2 ^ 53" and m: "0 \<le> m" "m \<le> 2 ^ 64 - 2 ^ 11"
  shows "toDouble (m * r) < r * 2 ^ 64"
proof (cases "m * r < 2 ^ 53")
  case True
  have "(2::int) ^ 53 \<le> 1 * 2 ^ 64" by simp
  also have "\<dots> \<le> r * 2 ^ 64" using r(1) by (intro mult_right_mono) simp_all
  finally have "(2::int) ^ 53 \<le> r * 2 ^ 64" .
  moreover have "toDouble (m * r) = m * r" using True by (rule toDouble_small)
  ultimately show ?thesis using True by linarith
next
  case False
  define y where "y = m * r"
  define T where "T = r * 2 ^ 64"
  define e where "e = bitlen y - 53"
  define u :: int where "u = 2 ^ e"
  define h :: int where "h = 2 ^ (e - 1)"
  define q where "q = y div u"
  define rm where "rm = y mod u"
  have ny: "\<not> y < 2 ^ 53" using False by (simp add: y_def)
  note c = toDouble_cases[OF ny, folded e_def]
  have upos: "0 < u" by (simp add: u_def)
  have uh: "u = 2 * h" using c(1) unfolding u_def h_def
    by (metis Suc_diff_1 less_eq_Suc_le power_Suc One_nat_def)
  have "m * r \<le> (2 ^ 64 - 2 ^ 11) * r" using m(2) r(1) by (intro mult_right_mono) simp_all
  then have yT: "y \<le> T - r * 2 ^ 11" by (simp add: y_def T_def algebra_simps)
  have rpos: "0 < r" using r(1) by simp
  have yltT: "y < T" using yT rpos by (smt (verit) mult_pos_pos zero_less_power)
  have "T \<le> 2 ^ 53 * 2 ^ 64" unfolding T_def using r(2) by (intro mult_right_mono) simp_all
  then have "(2::int) ^ (e + 52) < 2 ^ 117" using c(2) yltT by simp
  then have "e + 52 < 117"
    using power_less_imp_less_exp[of "2::int" "e + 52" 117] by simp
  then have e64: "e \<le> 64" by simp
  have "u dvd 2 ^ 64" unfolding u_def using e64 by (rule le_imp_power_dvd)
  then have "u dvd T" unfolding T_def by simp
  then obtain k where k: "T = k * u" by (metis dvd_def mult.commute)
  have yq: "y = q * u + rm" by (simp add: q_def rm_def)
  have rm0: "0 \<le> rm" using upos by (simp add: rm_def)
  have qy: "q * u \<le> y" using yq rm0 by simp
  have td: "toDouble y = q * u \<or> (toDouble y = (q + 1) * u \<and> h \<le> rm)"
    using c(4) by (simp add: q_def rm_def u_def h_def)
  have "toDouble y < T"
  proof (rule disjE[OF td])
    assume "toDouble y = q * u"
    then show ?thesis using qy yltT by simp
  next
    assume a: "toDouble y = (q + 1) * u \<and> h \<le> rm"
    have "(q + 1) * u < T"
    proof (rule ccontr)
      assume "\<not> (q + 1) * u < T"
      then have "k * u \<le> (q + 1) * u" using k by simp
      then have k1: "k \<le> q + 1" using upos by (simp add: mult_le_cancel_right)
      have "q * u < k * u" using qy yltT k by simp
      then have "q < k" using upos by (simp add: mult_less_cancel_right)
      with k1 have kq: "k = q + 1" by simp
      have "T - y = u - rm" using k kq yq by (simp add: algebra_simps)
      then have "T - y \<le> h" using a uh by simp
      then have rh: "r * 2 ^ 11 \<le> h" using yT by simp
      have "(2::int) ^ (e + 52) < r * 2 ^ 64" using c(2) yltT by (simp add: T_def)
      then have "u * 2 ^ 52 < (r * 2 ^ 12) * 2 ^ 52" by (simp add: u_def power_add)
      then have "u < r * 2 ^ 12" by (simp add: mult_less_cancel_right)
      then have "h < r * 2 ^ 11" using uh by simp
      with rh show False by simp
    qed
    then show ?thesis using a by simp
  qed
  then show ?thesis by (simp add: y_def T_def)
qed

lemma toDouble_below_one:
  assumes "0 \<le> v" and "toDouble v < 2 ^ 64"
  shows "toDouble v \<le> 2 ^ 64 - 2 ^ 11"
proof (cases "v < 2 ^ 53")
  case True
  then show ?thesis by (simp add: toDouble_small)
next
  case False
  define e where "e = bitlen v - 53"
  define u :: int where "u = 2 ^ e"
  define q where "q = v div u"
  note c = toDouble_cases[OF False, folded e_def]
  have upos: "0 < u" by (simp add: u_def)
  have "2 ^ 52 * u \<le> v" using c(2) by (simp add: u_def power_add mult.commute)
  then have "(2 ^ 52 * u) div u \<le> v div u" using upos by (rule zdiv_mono1)
  then have qlo: "2 ^ 52 \<le> q" unfolding q_def using upos by simp
  have "v < 2 ^ 53 * u" using c(3) by (simp add: u_def power_add mult.commute)
  moreover have "v = q * u + v mod u" by (simp add: q_def)
  moreover have "0 \<le> v mod u" using upos by simp
  ultimately have "q * u \<le> v" by linarith
  note \<open>v < 2 ^ 53 * u\<close>
  moreover note \<open>q * u \<le> v\<close>
  ultimately have "q * u < 2 ^ 53 * u" by simp
  then have qhi: "q < 2 ^ 53" using upos by (simp add: mult_less_cancel_right)
  obtain q' where q': "toDouble v = q' * u" "q \<le> q'" "q' \<le> q + 1"
    using c(4) by (auto simp: q_def u_def)
  have "2 ^ 52 * u \<le> q' * u" using qlo q'(2) upos by (simp add: mult_le_cancel_right)
  then have "2 ^ 52 * u < 2 ^ 64" using assms(2) q'(1) by simp
  then have "(2::int) ^ (52 + e) < 2 ^ 64" by (simp add: u_def power_add)
  then have "52 + e < 64"
    using power_less_imp_less_exp[of "2::int" "52 + e" 64] by simp
  then have e11: "e \<le> 11" by simp
  show ?thesis
  proof (cases "e = 11")
    case True
    then have u11: "u = 2 ^ 11" by (simp add: u_def)
    have "q' * 2 ^ 11 < 2 ^ 53 * 2 ^ 11" using assms(2) q'(1) u11 by simp
    then have "q' < 2 ^ 53" by simp
    then have "q' \<le> 2 ^ 53 - 1" by simp
    then have "q' * 2 ^ 11 \<le> (2 ^ 53 - 1) * 2 ^ 11" by (intro mult_right_mono) simp_all
    then show ?thesis using q'(1) u11 by simp
  next
    case False
    then have "e \<le> 10" using e11 by simp
    then have "u \<le> 2 ^ 10" unfolding u_def by (intro power_increasing) simp_all
    moreover have "q' \<le> 2 ^ 53" using qhi q'(3) by simp
    moreover have "0 \<le> q'" using qlo q'(2) by simp
    ultimately have "q' * u \<le> 2 ^ 53 * 2 ^ 10"
      using upos by (intro mult_mono) simp_all
    then show ?thesis using q'(1) by simp
  qed
qed

lemma digitValue_nonneg: "digitValue c = Some d \<Longrightarrow> 0 \<le> d"
  by (auto simp add: digitValue_def Let_def split: if_splits)

lemma parseDigits_nonneg: "0 \<le> acc \<Longrightarrow> parseDigits acc s = Some v \<Longrightarrow> 0 \<le> v"
proof (induction s arbitrary: acc)
  case Nil
  then show ?case by simp
next
  case (Cons c cs)
  then obtain d where d: "digitValue c = Some d" "parseDigits (16 * acc + d) cs = Some v"
    by (auto split: option.splits)
  have "0 \<le> 16 * acc + d" using digitValue_nonneg[OF d(1)] Cons.prems(1) by simp
  from Cons.IH[OF this d(2)] show ?case .
qed

lemma parseInt16_nonneg: "parseInt16 s = Some v \<Longrightarrow> 0 \<le> v"
  using parseDigits_nonneg[of 0 s v] by (auto simp add: parseInt16_def split: if_splits)

lemma getFloat_Inr:
  assumes "fst (getFloat r) = Inr f"
  obtains v where "0 \<le> v" and "f = of_int (toDouble v) / 2 ^ 64"
proof -
  obtain res r' where g: "getHexadecimal 16 r = (res, r')" by (cases "getHexadecimal 16 r")
  from assms g obtain hex where h: "res = Inr hex"
    by (cases res) (auto simp add: getFloat_def)
  from assms g h obtain v where v: "parseInt16 hex = Some v" "f = of_int (toDouble v) / 2 ^ 64"
    by (cases "parseInt16 hex") (auto simp add: getFloat_def)
  show ?thesis using that[OF parseInt16_nonneg[OF v(1)] v(2)] .
qed

lemma getInteger_value:
  assumes "fst (getFloat r) = Inr f" and "lo \<le> hi"
  shows "getInteger lo hi r = (Inr (\<lfloor>fl64 (f * of_int (hi - lo + 1))\<rfloor> + lo), snd (getFloat r))"
  using assms by (cases "getFloat r") (simp add: getInteger_def Let_def)

lemma fl64_product:
  "fl64 (of_int m / 2 ^ 64 * of_int k) = of_int (toDouble (m * k)) / 2 ^ 64"
proof -
  have "of_int m / 2 ^ 64 * of_int k * (2 ^ 64 :: rat) = of_int (m * k)" by simp
  then show ?thesis by (simp only: fl64_def floor_of_int)
qed

lemma floor_over_pow64: "\<lfloor>(of_int a :: rat) / 2 ^ 64\<rfloor> = a div 2 ^ 64"
proof -
  have "(2::rat) ^ 64 = of_int (2 ^ 64)" by simp
  then show ?thesis by (simp only: floor_divide_of_int_eq)
qed

lemma getInteger_in_range:
  assumes f: "fst (getFloat r) = Inr f" and f1: "f < 1"
      and lh: "lo \<le> hi" and rng: "hi - lo + 1 \<le> 2 ^ 53"
  shows "\<exists>j. getInteger lo hi r = (Inr j, snd (getFloat r)) \<and> lo \<le> j \<and> j \<le> hi"
proof -
  obtain v where v: "0 \<le> v" "f = of_int (toDouble v) / 2 ^ 64"
    using getFloat_Inr[OF f] by blast
  define m where "m = toDouble v"
  define k where "k = hi - lo + 1"
  have m0: "0 \<le> m" unfolding m_def using v(1) by (rule toDouble_nonneg)
  have "(of_int m :: rat) < 2 ^ 64" using f1 v(2) by (simp add: m_def)
  then have "(of_int m :: rat) < of_int (2 ^ 64)" by simp
  then have "m < 2 ^ 64" by (simp only: of_int_less_iff)
  then have m1: "m \<le> 2 ^ 64 - 2 ^ 11" unfolding m_def using v(1) by (intro toDouble_below_one)
  have k1: "1 \<le> k" "k \<le> 2 ^ 53" using lh rng by (simp_all add: k_def)
  have mk: "0 \<le> m * k" using m0 k1 by simp
  have up: "toDouble (m * k) < k * 2 ^ 64" using toDouble_mult_below[OF k1 m0 m1] .
  have lo0: "0 \<le> toDouble (m * k)" using mk by (rule toDouble_nonneg)
  define j where "j = toDouble (m * k) div 2 ^ 64 + lo"
  have "\<lfloor>fl64 (f * of_int k)\<rfloor> = toDouble (m * k) div 2 ^ 64"
    unfolding v(2) m_def[symmetric] fl64_product floor_over_pow64 ..
  then have g: "getInteger lo hi r = (Inr j, snd (getFloat r))"
    using getInteger_value[OF f lh] by (simp add: j_def k_def)
  have "0 \<le> toDouble (m * k) div 2 ^ 64" using lo0 by (simp add: pos_imp_zdiv_nonneg_iff)
  moreover have "toDouble (m * k) div 2 ^ 64 < k"
  proof (rule ccontr)
    let ?a = "toDouble (m * k)"
    assume "\<not> ?a div 2 ^ 64 < k"
    then have "k * 2 ^ 64 \<le> (?a div 2 ^ 64) * 2 ^ 64" by (intro mult_right_mono) simp_all
    moreover have "?a = (?a div 2 ^ 64) * 2 ^ 64 + ?a mod 2 ^ 64" by simp
    moreover have "0 \<le> ?a mod 2 ^ 64" by simp
    ultimately show False using up by linarith
  qed
  ultimately have "lo \<le> j \<and> j \<le> hi" by (simp add: j_def k_def)
  with g show ?thesis by blast
qed

subsection \<open>Choice and shuffle\<close>

lemma getChoice_in_range:
  assumes "xs \<noteq> []" and "int (length xs) \<le> 2 ^ 53"
      and f: "fst (getFloat r) = Inr f" and f1: "f < 1"
  shows "\<exists>x. getChoice xs r = (Inr x, snd (getFloat r)) \<and> x \<in> set xs"
proof -
  have lh: "(0::int) \<le> int (length xs) - 1" using assms(1) by (cases xs) simp_all
  have rg: "int (length xs) - 1 - 0 + 1 \<le> 2 ^ 53" using assms(2) by simp
  obtain j where j: "getInteger 0 (int (length xs) - 1) r = (Inr j, snd (getFloat r))"
    "0 \<le> j" "j \<le> int (length xs) - 1"
    using getInteger_in_range[OF f f1 lh rg] by blast
  have "nat j < length xs" using j(2,3) by linarith
  then have "xs ! nat j \<in> set xs" by simp
  moreover have "getChoice xs r = (Inr (xs ! nat j), snd (getFloat r))"
    using assms(1) j by (simp add: getChoice_def)
  ultimately show ?thesis by blast
qed

lemma swap_some:
  assumes "i < length zs" and "0 \<le> j" and "nat j < length zs"
  shows "js_set (js_set (map Some zs) (int i) (js_get (map Some zs) j)) j
           (js_get (map Some zs) (int i))
         = map Some (zs[i := zs ! nat j, nat j := zs ! i])"
proof -
  have "j < int (length zs)" using assms(2,3) by linarith
  then show ?thesis
    using assms by (simp add: js_get_def js_set_def map_update)
qed

lemma shuffle_loop_perm:
  assumes "floats_below_one n r" and "n < length zs" and "int (length zs) \<le> 2 ^ 53"
  shows "\<exists>ys. fst (shuffle_loop n (map Some zs) r) = Inr (map Some ys) \<and> mset ys = mset zs"
  using assms
proof (induction n arbitrary: zs r)
  case 0
  then show ?case by auto
next
  case (Suc n)
  obtain f r' where g: "getFloat r = (Inr f, r')" and f1: "f < 1" and rest: "floats_below_one n r'"
    using Suc.prems(1) by (auto split: prod.splits sum.splits)
  have f: "fst (getFloat r) = Inr f" using g by simp
  have rg: "int (Suc n) - 0 + 1 \<le> 2 ^ 53" using Suc.prems(2,3) by linarith
  obtain j where j: "getInteger 0 (int (Suc n)) r = (Inr j, r')" "0 \<le> j" "j \<le> int (Suc n)"
    using getInteger_in_range[OF f f1 _ rg] g by auto
  have jl: "nat j < length zs" using j(2,3) Suc.prems(2) by linarith
  let ?zs = "zs[Suc n := zs ! nat j, nat j := zs ! Suc n]"
  have sw: "js_set (js_set (map Some zs) (int (Suc n)) (js_get (map Some zs) j)) j
              (js_get (map Some zs) (int (Suc n))) = map Some ?zs"
    using swap_some[OF Suc.prems(2) j(2) jl] .
  have step: "shuffle_loop (Suc n) (map Some zs) r = shuffle_loop n (map Some ?zs) r'"
    using j(1) sw by (simp add: Let_def del: of_nat_Suc)
  have m: "mset ?zs = mset zs" using Suc.prems(2) jl by (simp add: mset_swap)
  have "n < length ?zs" "int (length ?zs) \<le> 2 ^ 53" using Suc.prems(2,3) by simp_all
  from Suc.IH[OF rest this] obtain ys
    where "fst (shuffle_loop n (map Some ?zs) r') = Inr (map Some ys)" "mset ys = mset ?zs"
    by blast
  then show ?case using step m by auto
qed

lemma shuffle_perm:
  assumes "floats_below_one (length array - 1) r" and "int (length array) \<le> 2 ^ 53"
  shows "\<exists>ys. fst (shuffle array r) = Inr (map Some ys) \<and> mset ys = mset array"
proof (cases "array = []")
  case True
  then show ?thesis by (simp add: shuffle_def)
next
  case False
  then have "length array - 1 < length array" by (cases array) simp_all
  from shuffle_loop_perm[OF assms(1) this assms(2)] show ?thesis by (simp add: shuffle_def)
qed

lemma shuffle_loop_error:
  "fst (shuffle_loop n res r) = Inl e \<Longrightarrow> e = NotHexadecimal"
proof (induction n arbitrary: res r)
  case 0
  then show ?case by simp
next
  case (Suc n)
  obtain x r' where g: "getInteger 0 (int (Suc n)) r = (x, r')"
    by (cases "getInteger 0 (int (Suc n)) r")
  show ?case
  proof (cases x)
    case (Inl e')
    then have "e' = e" using Suc.prems g by (simp del: of_nat_Suc)
    moreover have "e' = NotHexadecimal"
      using g Inl
      by (auto simp add: getInteger_def getFloat_def getHexadecimal_def Let_def
            split: if_splits prod.splits sum.splits option.splits simp del: of_nat_Suc)
    ultimately show ?thesis by simp
  next
    case (Inr j)
    then show ?thesis using Suc.prems g Suc.IH by (simp add: Let_def del: of_nat_Suc)
  qed
qed

lemma shuffle_error: "fst (shuffle array r) = Inl e \<Longrightarrow> e = NotHexadecimal"
  unfolding shuffle_def by (rule shuffle_loop_error)

lemma getUniqueChoices_argument_errors:
  "(cnt > int (length array) \<longrightarrow> getUniqueChoices array cnt r = (Inl CountAboveLength, r))
   \<and> (cnt < 0 \<longrightarrow> getUniqueChoices array cnt r = (Inl CountNegative, r))
   \<and> (0 \<le> cnt \<and> cnt \<le> int (length array) \<longrightarrow>
         fst (getUniqueChoices array cnt r) \<noteq> Inl CountAboveLength
       \<and> fst (getUniqueChoices array cnt r) \<noteq> Inl CountNegative)"
proof (intro conjI impI)
  assume "0 \<le> cnt \<and> cnt \<le> int (length array)"
  then have g: "getUniqueChoices array cnt r =
      (case shuffle array r of (Inl e, r') \<Rightarrow> (Inl e, r')
       | (Inr shuffled, r') \<Rightarrow> (Inr (slice0 shuffled cnt), r'))"
    by (simp add: getUniqueChoices_def)
  obtain x r' where s: "shuffle array r = (x, r')" by (cases "shuffle array r")
  show "fst (getUniqueChoices array cnt r) \<noteq> Inl CountAboveLength"
    using shuffle_error[of array r] s by (cases x) (auto simp add: g)
  show "fst (getUniqueChoices array cnt r) \<noteq> Inl CountNegative"
    using shuffle_error[of array r] s by (cases x) (auto simp add: g)
qed (simp_all add: getUniqueChoices_def)

text \<open>
  C9, amended. \<open>getUniqueChoices array cnt\<close> fails with the first argument error when
  \<open>cnt\<close> is above the length and with the second when \<open>cnt\<close> is negative, and with
  neither when \<open>0 \<le> cnt \<le> length\<close>. In that last case, for an array of a length
  JavaScript allows (below \<open>2^32\<close>) and when each float the shuffle draws is below 1, it
  returns exactly \<open>cnt\<close> elements taken from pairwise distinct positions of the input
  (a sub-multiset of it), so pairwise distinct elements when the input's are distinct.
\<close>

theorem getUniqueChoices_distinct_positions:
  "(cnt > int (length array) \<longrightarrow> fst (getUniqueChoices array cnt r) = Inl CountAboveLength)
   \<and> (cnt < 0 \<longrightarrow> fst (getUniqueChoices array cnt r) = Inl CountNegative)
   \<and> (0 \<le> cnt \<and> cnt \<le> int (length array) \<longrightarrow>
         fst (getUniqueChoices array cnt r) \<noteq> Inl CountAboveLength
       \<and> fst (getUniqueChoices array cnt r) \<noteq> Inl CountNegative)
   \<and> (0 \<le> cnt \<and> cnt \<le> int (length array) \<and> int (length array) < 2 ^ 32
        \<and> floats_below_one (length array - 1) r \<longrightarrow>
         (\<exists>ys. fst (getUniqueChoices array cnt r) = Inr (map Some ys)
               \<and> length ys = nat cnt
               \<and> mset ys \<subseteq># mset array
               \<and> (distinct array \<longrightarrow> distinct ys)))"
proof (intro conjI impI)
  assume a: "0 \<le> cnt \<and> cnt \<le> int (length array) \<and> int (length array) < 2 ^ 32
        \<and> floats_below_one (length array - 1) r"
  then have l: "int (length array) \<le> 2 ^ 53" by simp
  from a have fl: "floats_below_one (length array - 1) r" by simp
  obtain zs where zs: "fst (shuffle array r) = Inr (map Some zs)" "mset zs = mset array"
    using shuffle_perm[OF fl l] by blast
  let ?ys = "take (nat cnt) zs"
  have len: "length zs = length array" using zs(2) by (metis size_mset)
  have "fst (getUniqueChoices array cnt r) = Inr (map Some ?ys)"
    using a zs(1) by (cases "shuffle array r") (auto simp add: getUniqueChoices_def slice0_def take_map)
  moreover have "length ?ys = nat cnt"
  proof -
    have "nat cnt \<le> length array" using a by linarith
    then show ?thesis using len by simp
  qed
  moreover have "mset ?ys \<subseteq># mset array"
    using zs(2) by (metis append_take_drop_id mset_append mset_subset_eq_add_left)
  moreover have "distinct array \<longrightarrow> distinct ?ys"
    using zs(2) by (metis distinct_take mset_eq_imp_distinct_iff)
  ultimately show "\<exists>ys. fst (getUniqueChoices array cnt r) = Inr (map Some ys)
               \<and> length ys = nat cnt
               \<and> mset ys \<subseteq># mset array
               \<and> (distinct array \<longrightarrow> distinct ys)" by blast
qed (use getUniqueChoices_argument_errors[where cnt=cnt and array=array and r=r] in simp_all)

text \<open>
  C9 as stated fails: the elements returned are pairwise distinct only when the input's
  are. \<open>getUniqueChoices([1, 1], 2)\<close> returns \<open>[1, 1]\<close>: the shuffle permutes positions,
  and two positions may hold the same value.
\<close>

theorem getUniqueChoices_counterexample:
  "(0::int) \<le> 2 \<and> (2::int) \<le> int (length [1::int, 1])
   \<and> fst (getUniqueChoices [1::int, 1] 2 (rng_with [])) = Inr [Some 1, Some 1]
   \<and> \<not> distinct [Some (1::int), Some 1]"
  by code_simp

lemma floats_rng_empty: "floats_below_one 2 (rng_with [])"
  by code_simp

lemma choices_rng_empty:
  "fst (getUniqueChoices [10::int, 20, 30] 2 (rng_with [])) = Inr [Some 20, Some 30]"
  by code_simp

theorem getUniqueChoices_witness:
  "(0::int) \<le> 2 \<and> (2::int) \<le> int (length [10::int, 20, 30])
   \<and> int (length [10::int, 20, 30]) < 2 ^ 32
   \<and> floats_below_one (length [10::int, 20, 30] - 1) (rng_with [])
   \<and> fst (getUniqueChoices [10::int, 20, 30] 2 (rng_with [])) = Inr (map Some [20, 30])
   \<and> mset [20, 30] \<subseteq># mset [10::int, 20, 30]
   \<and> fst (getUniqueChoices [10::int, 20, 30] 4 (rng_with [])) = Inl CountAboveLength
   \<and> fst (getUniqueChoices [10::int, 20, 30] (- 1) (rng_with [])) = Inl CountNegative"
proof -
  have h: "(0::int) \<le> 2 \<and> (2::int) \<le> int (length [10::int, 20, 30])
      \<and> int (length [10::int, 20, 30]) < 2 ^ 32
      \<and> floats_below_one (length [10::int, 20, 30] - 1) (rng_with [])"
  proof -
    have "length [10::int, 20, 30] - 1 = 2" by simp
    then have "floats_below_one (length [10::int, 20, 30] - 1) (rng_with [])"
      using floats_rng_empty by (simp only:)
    moreover have "(0::int) \<le> 2 \<and> (2::int) \<le> int (length [10::int, 20, 30])
      \<and> int (length [10::int, 20, 30]) < 2 ^ 32" by simp
    ultimately show ?thesis by blast
  qed
  have m: "mset [20, 30] \<subseteq># mset [10::int, 20, 30]" by simp
  note T1 = getUniqueChoices_distinct_positions[where cnt=2 and array="[10::int, 20, 30]" and r="rng_with []"]
  note T2 = getUniqueChoices_distinct_positions[where cnt=4 and array="[10::int, 20, 30]" and r="rng_with []"]
  note T3 = getUniqueChoices_distinct_positions[where cnt="- 1" and array="[10::int, 20, 30]" and r="rng_with []"]
  have e4: "fst (getUniqueChoices [10::int, 20, 30] 4 (rng_with [])) = Inl CountAboveLength"
    using T2 by simp
  have e1: "fst (getUniqueChoices [10::int, 20, 30] (- 1) (rng_with [])) = Inl CountNegative"
    using T3 by simp
  have c: "fst (getUniqueChoices [10::int, 20, 30] 2 (rng_with [])) = Inr (map Some [20, 30])"
    using choices_rng_empty by simp
  show ?thesis using h m e4 e1 c T1 by blast
qed

section \<open>Exhaustion: every call has candidates\<close>

lemma length_insert_by: "length (insert_by cmp x ys) = Suc (length ys)"
  by (induction ys) auto

lemma length_sort_by: "length (sort_by cmp xs) = length xs"
  unfolding sort_by_def by (induction xs) (simp_all add: length_insert_by)

lemma length_getCompatibleKeys: "length (getCompatibleKeys k) = 12"
  by (simp add: getCompatibleKeys_def length_sort_by ALL_KEYS_def)

lemma length_getUnplayed_key: "length (getUnplayed (key_filter k) lib) \<le> length (allSongs lib)"
  by (simp add: getUnplayed_key_filter)

lemma length_collectCandidates:
  "length (collectCandidates lib pool keys acc)
     \<le> length acc + length keys * length (allSongs lib)"
proof (induction keys arbitrary: acc)
  case Nil
  then show ?case by simp
next
  case (Cons k keys)
  let ?c = "acc @ getUnplayed (key_filter k) lib"
  have l: "length ?c \<le> length acc + length (allSongs lib)"
    using length_getUnplayed_key[of k lib] by simp
  show ?case
  proof (cases "int (length ?c) \<ge> pool * 2")
    case True
    then have "collectCandidates lib pool (k # keys) acc = ?c" by (simp add: Let_def)
    then show ?thesis using l by simp
  next
    case False
    then have "collectCandidates lib pool (k # keys) acc = collectCandidates lib pool keys ?c"
      by (simp add: Let_def)
    then show ?thesis using Cons.IH[of ?c] l by simp
  qed
qed

lemma length_getCompatibleCandidates:
  "length (getCompatibleCandidates s) \<le> 12 * length (allSongs (library s))"
proof -
  let ?keys = "filter (\<lambda>k. scoreCompatibility (currentKey (keyManager s)) k
                          \<ge> minCompatibilityScore (options s))
                 (getCompatibleKeys (currentKey (keyManager s)))"
  have "length ?keys \<le> 12"
    using length_filter_le[of _ "getCompatibleKeys (currentKey (keyManager s))"]
    by (simp add: length_getCompatibleKeys)
  then have b: "length ?keys * length (allSongs (library s)) \<le> 12 * length (allSongs (library s))"
    by (rule mult_le_mono1)
  have a: "length (collectCandidates (library s) (candidatePoolSize (options s)) ?keys [])
             \<le> length ?keys * length (allSongs (library s))"
    using length_collectCandidates[of "library s" "candidatePoolSize (options s)" ?keys "[]"]
    by simp
  have c2: "getCompatibleCandidates s
              = collectCandidates (library s) (candidatePoolSize (options s)) ?keys []"
    by (simp add: getCompatibleCandidates_def Let_def)
  show ?thesis unfolding c2 using a b by (rule le_trans)
qed

lemma normalCandidates_nonempty:
  assumes "allSongs (library s) \<noteq> []"
  shows "snd (normalCandidates s) \<noteq> []"
    and "length (snd (normalCandidates s)) \<le> 12 * length (allSongs (library s))"
proof -
  show "snd (normalCandidates s) \<noteq> []"
    using assms by (simp add: normalCandidates_nested Let_def)
  have c1: "length (getUnplayed (key_filter (currentKey (keyManager s))) (library s))
              \<le> 12 * length (allSongs (library s))"
    using length_getUnplayed_key[of "currentKey (keyManager s)" "library s"] by simp
  have c3: "length (filter_songs (key_filter (currentKey (keyManager s)))
                     (library (s\<lparr>library := library_reset (library s)\<rparr>)))
              \<le> 12 * length (allSongs (library s))"
    unfolding filter_songs_key_filter
    by (rule le_trans[OF length_filter_le]) (simp add: library_reset_def)
  have c4: "length (getUnplayed no_filter (library (s\<lparr>library := library_reset (library s)\<rparr>)))
              \<le> 12 * length (allSongs (library s))"
    by (simp add: getUnplayed_no_filter library_reset_def)
  show "length (snd (normalCandidates s)) \<le> 12 * length (allSongs (library s))"
    using c1 c3 c4 length_getCompatibleCandidates[of s]
    by (simp add: normalCandidates_nested Let_def)
qed

lemma length_scoreCandidates: "length (scoreCandidates s cands) \<le> length cands"
  using length_filter_le[of _ "map (\<lambda>sg. (sg, scoreCompatibility (currentKey (keyManager s)) (key sg))) cands"]
  by (simp add: scoreCandidates_def Let_def length_sort_by)

lemma selectFromTopCandidates_returns:
  assumes songs: "allSongs (library s) \<noteq> []" "int (length (allSongs (library s))) \<le> 2 ^ 53"
      and pool: "1 \<le> candidatePoolSize (options s)"
      and len: "int (length scored) \<le> 2 ^ 53"
      and f: "fst (getFloat (qrng s)) = Inr f" "f < 1"
  shows "\<exists>sg. fst (selectFromTopCandidates s scored) = Inr sg"
proof (cases "scored = []")
  case True
  obtain x where "getChoice (allSongs (library s)) (qrng s) = (Inr x, snd (getFloat (qrng s)))"
    using getChoice_in_range[OF songs f] by blast
  then show ?thesis using True by (simp add: selectFromTopCandidates_def)
next
  case False
  let ?top = "slice0 scored (candidatePoolSize (options s))"
  have t: "?top = take (nat (candidatePoolSize (options s))) scored"
    using pool by (simp add: slice0_def)
  have "0 < nat (candidatePoolSize (options s))" using pool by simp
  then have ne: "?top \<noteq> []" using False unfolding t by (cases scored) (auto simp: take_Cons')
  have "length ?top \<le> length scored" unfolding t by simp
  then have l: "int (length ?top) \<le> 2 ^ 53" using len by linarith
  obtain x where "getChoice ?top (qrng s) = (Inr x, snd (getFloat (qrng s)))"
    using getChoice_in_range[OF ne l f] by blast
  then show ?thesis using False by (simp add: selectFromTopCandidates_def Let_def)
qed

lemma selectNormal_returns:
  assumes songs: "allSongs (library s) \<noteq> []" "int (length (allSongs (library s))) < 2 ^ 32"
      and pool: "1 \<le> candidatePoolSize (options s)"
      and f: "fst (getFloat (qrng s)) = Inr f" "f < 1"
  shows "\<exists>sg c. fst (selectNormal s) = Inr (sg, c)"
proof -
  obtain s1 cands where nc: "normalCandidates s = (s1, cands)" by (cases "normalCandidates s")
  have fr: "allSongs (library s1) = allSongs (library s)" "options s1 = options s"
    "qrng s1 = qrng s"
    using normalCandidates_frame[of s] nc by simp_all
  have "length cands \<le> 12 * length (allSongs (library s))"
    using normalCandidates_nonempty(2)[OF songs(1)] nc by simp
  then have "int (length cands) \<le> 12 * 2 ^ 32" using songs(2) by linarith
  then have "int (length (scoreCandidates s1 cands)) \<le> 2 ^ 53"
    using length_scoreCandidates[of s1 cands] by simp
  moreover have "allSongs (library s1) \<noteq> []" "int (length (allSongs (library s1))) \<le> 2 ^ 53"
    using songs fr by (simp_all add: order.strict_implies_order order_trans[of _ "2 ^ 32" "2 ^ 53"])
  moreover have "1 \<le> candidatePoolSize (options s1)" using pool fr by simp
  moreover have "fst (getFloat (qrng s1)) = Inr f" using f fr by simp
  ultimately obtain sg where "fst (selectFromTopCandidates s1 (scoreCandidates s1 cands)) = Inr sg"
    using selectFromTopCandidates_returns[of s1 "scoreCandidates s1 cands" f] f(2) by blast
  then obtain s' where "selectFromTopCandidates s1 (scoreCandidates s1 cands) = (Inr sg, s')"
    by (cases "selectFromTopCandidates s1 (scoreCandidates s1 cands)") auto
  then show ?thesis
    by (simp add: selectNormal_def nc Let_def)
qed

lemma selectMagicNumber_returns:
  assumes songs: "allSongs (library s) \<noteq> []" "int (length (allSongs (library s))) < 2 ^ 32"
      and f: "fst (getFloat (qrng s)) = Inr f" "f < 1"
  shows "\<exists>sg c. fst (selectMagicNumber s) = Inr (sg, c)"
proof -
  let ?c = "wildcardCandidates (library s)"
  have ne: "?c \<noteq> []" using songs(1) by (simp add: wildcardCandidates_def Let_def)
  have "length ?c \<le> length (allSongs (library s))"
    by (simp add: wildcardCandidates_def Let_def)
  moreover have "(2::int) ^ 32 \<le> 2 ^ 53" by simp
  ultimately have l: "int (length ?c) \<le> 2 ^ 53" using songs(2) by linarith
  obtain x where x: "getChoice ?c (qrng s) = (Inr x, snd (getFloat (qrng s)))"
    using getChoice_in_range[OF ne l f] by blast
  let ?u = "filter (\<lambda>sg. song_id sg \<notin> playedIds (library s)) (allSongs (library s))"
  show ?thesis
  proof (cases "?u = []")
    case True
    then have "?c = allSongs (library s)" by (simp add: wildcardCandidates_def)
    with x have "getChoice (allSongs (library s)) (qrng s) = (Inr x, snd (getFloat (qrng s)))"
      by simp
    then show ?thesis
      using True by (simp add: selectMagicNumber_def getUnplayed_no_filter Let_def library_reset_def)
  next
    case False
    then have "?c = ?u" by (simp add: wildcardCandidates_def)
    with x have "getChoice ?u (qrng s) = (Inr x, snd (getFloat (qrng s)))" by simp
    then show ?thesis
      using False by (simp add: selectMagicNumber_def getUnplayed_no_filter Let_def)
  qed
qed

text \<open>
  What does hold: on a non-empty catalogue, with a pool size of at least 1, a
  \<open>selectTrack\<close> call whose random float is below 1 returns a result, whatever the
  played set and the key. The candidate ladder never hands an empty list to the draw.
\<close>

lemma selectTrack_returns:
  assumes songs: "allSongs (library s) \<noteq> []" "int (length (allSongs (library s))) < 2 ^ 32"
      and pool: "1 \<le> candidatePoolSize (options s)"
      and f: "fst (getFloat (qrng s)) = Inr f" "f < 1"
  shows "\<exists>r. fst (selectTrack s) = Inr r"
proof -
  let ?s1 = "s\<lparr>trackCount := trackCount s + 1\<rparr>"
  have a: "allSongs (library ?s1) \<noteq> []" "int (length (allSongs (library ?s1))) < 2 ^ 32"
    "1 \<le> candidatePoolSize (options ?s1)" "fst (getFloat (qrng ?s1)) = Inr f"
    using songs pool f by simp_all
  have "\<exists>sg c. fst (selection s) = Inr (sg, c)"
    using selectMagicNumber_returns[OF a(1,2,4) f(2)] selectNormal_returns[OF a f(2)]
    by (simp add: selection_def Let_def)
  then obtain sg c where "fst (selection s) = Inr (sg, c)" by blast
  from selectTrack_Inr[OF this] show ?thesis by (simp add: Let_def)
qed

text \<open>
  C2 fails on the code. On the two-track catalogue (both key 1, tempo 94) with the
  default options, when the next 16 cached digits are \<open>ffffffffffffffff\<close> the first
  \<open>selectTrack\<close> call raises "Failed to get choice": \<open>getChoice\<close> on the two candidates
  draws \<open>getInteger(0, 1) = 2\<close>, and the array has no element at index 2. No tier of the
  candidate ladder is empty here; the call fails in the random draw (the defect of C4).
\<close>

theorem selectTrack_failed_choice:
  "new_SongLibrary [song_A, song_B] = Inr lib_two
   \<and> fst (getInteger 0 1 (rng_with ''ffffffffffffffff'')) = Inr 2
   \<and> fst (selectTrack (sel_two\<lparr>qrng := rng_with ''ffffffffffffffff''\<rparr>)) = Inl FailedChoice"
  by code_simp

end
